theory Spec2Isabelle
  imports Main "HOL-Library.Word" "HOL-Library.Stream" "HOL-Library.AList"
begin

unbundle bit_operations_syntax

section \<open>Python values used by \<open>examples/basic_operations.py\<close>\<close>

text \<open>
  A Python \<open>str\<close> is a sequence of Unicode code points, a \<open>bytes\<close> object a sequence of
  bytes. Code points are natural numbers (below \<open>0x110000\<close> in every Python string),
  bytes are HOL characters, which are exactly the 8-bit values.
\<close>

type_synonym str = "nat list"
type_synonym bytes = "char list"

text \<open>An ASCII literal of the script as a \<open>str\<close>.\<close>

definition ascii :: "string \<Rightarrow> str" where
  "ascii s = map of_char s"

text \<open>
  The values \<open>json.loads\<close> produces: \<open>None\<close>, \<open>bool\<close>, \<open>int\<close> (unbounded), \<open>float\<close>,
  \<open>str\<close>, \<open>list\<close> and \<open>dict\<close>. A \<open>dict\<close> keeps its keys in insertion order, so it is an
  association list. A \<open>float\<close> is kept as the numeric literal it was read from (floating
  point arithmetic is outside this development).
\<close>

datatype json =
    JNull
  | JBool bool
  | JInt int
  | JFloat str
  | JStr str
  | JArr "json list"
  | JObj "(str \<times> json) list"

text \<open>The exceptions the script can meet; none of them is caught anywhere in it.\<close>

datatype error =
    OSError                \<comment> \<open>\<open>connect\<close>, \<open>sendall\<close> or \<open>recv\<close> failed\<close>
  | UnicodeDecodeError     \<comment> \<open>\<open>bytes.decode()\<close> on bytes that are not UTF-8\<close>
  | UnicodeEncodeError     \<comment> \<open>\<open>str.encode()\<close> on a surrogate code point\<close>
  | JSONDecodeError        \<comment> \<open>\<open>json.loads\<close> on text that is not one JSON document\<close>
  | KeyError               \<comment> \<open>\<open>d[k]\<close> with \<open>k\<close> absent\<close>
  | AttributeError         \<comment> \<open>\<open>x.get\<close> where \<open>x\<close> is not a \<open>dict\<close>\<close>
  | TypeError              \<comment> \<open>iteration, subscript or hashing of a value that does not support it\<close>

subsection \<open>Code points of the characters the script and the JSON grammar name\<close>

abbreviation (input) TAB :: nat where "TAB \<equiv> 9"
abbreviation (input) NEWLINE :: nat where "NEWLINE \<equiv> 10"
abbreviation (input) CR :: nat where "CR \<equiv> 13"
abbreviation (input) SPACE :: nat where "SPACE \<equiv> 32"
abbreviation (input) QUOTE :: nat where "QUOTE \<equiv> 34"
abbreviation (input) PLUS :: nat where "PLUS \<equiv> 43"
abbreviation (input) COMMA :: nat where "COMMA \<equiv> 44"
abbreviation (input) MINUS :: nat where "MINUS \<equiv> 45"
abbreviation (input) DOT :: nat where "DOT \<equiv> 46"
abbreviation (input) SLASH :: nat where "SLASH \<equiv> 47"
abbreviation (input) DIGIT0 :: nat where "DIGIT0 \<equiv> 48"
abbreviation (input) DIGIT9 :: nat where "DIGIT9 \<equiv> 57"
abbreviation (input) COLON :: nat where "COLON \<equiv> 58"
abbreviation (input) LBRACKET :: nat where "LBRACKET \<equiv> 91"
abbreviation (input) BACKSLASH :: nat where "BACKSLASH \<equiv> 92"
abbreviation (input) RBRACKET :: nat where "RBRACKET \<equiv> 93"
abbreviation (input) LBRACE :: nat where "LBRACE \<equiv> 123"
abbreviation (input) RBRACE :: nat where "RBRACE \<equiv> 125"

subsection \<open>\<open>bytes.decode()\<close> and \<open>str.encode()\<close>: strict UTF-8\<close>

definition cont :: "nat \<Rightarrow> bool" where
  "cont b \<longleftrightarrow> 128 \<le> b \<and> b \<le> 191"

fun utf8_decode :: "nat list \<Rightarrow> str option" where
  "utf8_decode [] = Some []"
| "utf8_decode (b0 # bs) =
     (if b0 < 128 then map_option ((#) b0) (utf8_decode bs)
      else if 194 \<le> b0 \<and> b0 \<le> 223 then
        (case bs of
           b1 # r \<Rightarrow>
             if cont b1
             then map_option ((#) ((b0 - 192) * 64 + (b1 - 128))) (utf8_decode r)
             else None
         | _ \<Rightarrow> None)
      else if 224 \<le> b0 \<and> b0 \<le> 239 then
        (case bs of
           b1 # b2 # r \<Rightarrow>
             if cont b1 \<and> cont b2 \<and> (b0 = 224 \<longrightarrow> 160 \<le> b1) \<and> (b0 = 237 \<longrightarrow> b1 \<le> 159)
             then map_option ((#) ((b0 - 224) * 4096 + (b1 - 128) * 64 + (b2 - 128)))
                    (utf8_decode r)
             else None
         | _ \<Rightarrow> None)
      else if 240 \<le> b0 \<and> b0 \<le> 244 then
        (case bs of
           b1 # b2 # b3 # r \<Rightarrow>
             if cont b1 \<and> cont b2 \<and> cont b3 \<and> (b0 = 240 \<longrightarrow> 144 \<le> b1)
                \<and> (b0 = 244 \<longrightarrow> b1 \<le> 143)
             then map_option
                    ((#) ((b0 - 240) * 262144 + (b1 - 128) * 4096 + (b2 - 128) * 64
                          + (b3 - 128)))
                    (utf8_decode r)
             else None
         | _ \<Rightarrow> None)
      else None)"

text \<open>\<open>response.decode()\<close>: the default codec is UTF-8 with \<open>errors='strict'\<close>.\<close>

definition decode :: "bytes \<Rightarrow> error + str" where
  "decode b = (case utf8_decode (map of_char b) of
                 None \<Rightarrow> Inl UnicodeDecodeError
               | Some s \<Rightarrow> Inr s)"

definition utf8_encode1 :: "nat \<Rightarrow> nat list option" where
  "utf8_encode1 c =
     (if c < 128 then Some [c]
      else if c < 2048 then Some [192 + c div 64, 128 + c mod 64]
      else if 55296 \<le> c \<and> c \<le> 57343 then None
      else if c < 65536 then Some [224 + c div 4096, 128 + c div 64 mod 64, 128 + c mod 64]
      else Some [240 + c div 262144, 128 + c div 4096 mod 64, 128 + c div 64 mod 64,
                 128 + c mod 64])"

fun utf8_encode :: "str \<Rightarrow> nat list option" where
  "utf8_encode [] = Some []"
| "utf8_encode (c # cs) =
     (case utf8_encode1 c of
        None \<Rightarrow> None
      | Some bs \<Rightarrow> map_option ((@) bs) (utf8_encode cs))"

text \<open>\<open>s.encode()\<close>.\<close>

definition encode :: "str \<Rightarrow> error + bytes" where
  "encode s = (case utf8_encode s of
                 None \<Rightarrow> Inl UnicodeEncodeError
               | Some bs \<Rightarrow> Inr (map char_of bs))"

subsection \<open>\<open>str.strip()\<close>\<close>

text \<open>The code points for which \<open>str.isspace\<close> holds.\<close>

definition isspace :: "nat \<Rightarrow> bool" where
  "isspace c \<longleftrightarrow>
     (9 \<le> c \<and> c \<le> 13) \<or> (28 \<le> c \<and> c \<le> 32) \<or> c = 133 \<or> c = 160 \<or> c = 5760
     \<or> (8192 \<le> c \<and> c \<le> 8202) \<or> c = 8232 \<or> c = 8233 \<or> c = 8239 \<or> c = 8287
     \<or> c = 12288"

definition strip :: "str \<Rightarrow> str" where
  "strip s = rev (dropWhile isspace (rev (dropWhile isspace s)))"

section \<open>The \<open>json\<close> module\<close>

subsection \<open>\<open>json.loads\<close>\<close>

text \<open>The whitespace of the JSON grammar: space, tab, line feed, carriage return.\<close>

definition is_ws :: "nat \<Rightarrow> bool" where
  "is_ws c \<longleftrightarrow> c = SPACE \<or> c = TAB \<or> c = NEWLINE \<or> c = CR"

definition skip_ws :: "str \<Rightarrow> str" where
  "skip_ws s = dropWhile is_ws s"

definition is_digit :: "nat \<Rightarrow> bool" where
  "is_digit c \<longleftrightarrow> DIGIT0 \<le> c \<and> c \<le> DIGIT9"

definition hexval :: "nat \<Rightarrow> nat option" where
  "hexval c =
     (if 48 \<le> c \<and> c \<le> 57 then Some (c - 48)
      else if 97 \<le> c \<and> c \<le> 102 then Some (c - 87)
      else if 65 \<le> c \<and> c \<le> 70 then Some (c - 55)
      else None)"

text \<open>The four hexadecimal digits after \<open>\u\<close>.\<close>

definition decode_uXXXX :: "str \<Rightarrow> nat option" where
  "decode_uXXXX s =
     (case s of
        a # b # c # d # _ \<Rightarrow>
          (case (hexval a, hexval b, hexval c, hexval d) of
             (Some x, Some y, Some z, Some w) \<Rightarrow> Some (x * 4096 + y * 256 + z * 16 + w)
           | _ \<Rightarrow> None)
      | _ \<Rightarrow> None)"

text \<open>The table \<open>BACKSLASH\<close> of the decoder: the character after a backslash.\<close>

definition backslash :: "nat \<Rightarrow> nat option" where
  "backslash e =
     (if e = QUOTE then Some QUOTE
      else if e = BACKSLASH then Some BACKSLASH
      else if e = SLASH then Some SLASH
      else if e = 98 then Some 8
      else if e = 102 then Some 12
      else if e = 110 then Some NEWLINE
      else if e = 114 then Some CR
      else if e = 116 then Some TAB
      else None)"

definition is_high :: "nat \<Rightarrow> bool" where
  "is_high u \<longleftrightarrow> 55296 \<le> u \<and> u \<le> 56319"

definition is_low :: "nat \<Rightarrow> bool" where
  "is_low u \<longleftrightarrow> 56320 \<le> u \<and> u \<le> 57343"

definition surrogates :: "nat \<Rightarrow> nat \<Rightarrow> nat" where
  "surrogates u u2 = 65536 + ((u - 55296) * 1024 + (u2 - 56320))"

text \<open>
  \<open>scanstring\<close> (strict): the text after the opening quote, up to the closing one.
  A control character is refused, \<open>\uXXXX\<close> escapes are decoded, and a high surrogate
  escape directly followed by a low surrogate escape gives one code point.
\<close>

function scanstring :: "str \<Rightarrow> (str \<times> str) option" where
  "scanstring [] = None"
| "scanstring (c # cs) =
     (if c = QUOTE then Some ([], cs)
      else if c = BACKSLASH then
        (case cs of
           [] \<Rightarrow> None
         | esc # es \<Rightarrow>
             if esc \<noteq> 117 then
               (case backslash esc of
                  None \<Rightarrow> None
                | Some ch \<Rightarrow> map_option (\<lambda>(t, r). (ch # t, r)) (scanstring es))
             else
               (case decode_uXXXX es of
                  None \<Rightarrow> None
                | Some uni \<Rightarrow>
                    if is_high uni \<and> take 2 (drop 4 es) = [BACKSLASH, 117] then
                      (case decode_uXXXX (drop 6 es) of
                         None \<Rightarrow> None
                       | Some uni2 \<Rightarrow>
                           if is_low uni2
                           then map_option (\<lambda>(t, r). (surrogates uni uni2 # t, r))
                                  (scanstring (drop 10 es))
                           else map_option (\<lambda>(t, r). (uni # t, r)) (scanstring (drop 4 es)))
                    else map_option (\<lambda>(t, r). (uni # t, r)) (scanstring (drop 4 es))))
      else if c < 32 then None
      else map_option (\<lambda>(t, r). (c # t, r)) (scanstring cs))"
  by pat_completeness auto
termination
  by (relation "measure length") auto

text \<open>
  \<open>NUMBER_RE\<close>, \<open>(-?(?:0|[1-9][0-9]*))(\.[0-9]+)?([eE][-+]?[0-9]+)?\<close>: the integer part,
  the fraction, the exponent (each empty when absent) and the text after the match.
\<close>

definition match_int :: "str \<Rightarrow> (str \<times> str) option" where
  "match_int s =
     (let (sign, s1) = (case s of c # r \<Rightarrow> if c = MINUS then ([MINUS], r) else ([], s)
                        | [] \<Rightarrow> ([], s))
      in case s1 of
           [] \<Rightarrow> None
         | d # ds \<Rightarrow>
             if d = DIGIT0 then Some (sign @ [d], ds)
             else if is_digit d
             then Some (sign @ d # takeWhile is_digit ds, dropWhile is_digit ds)
             else None)"

definition match_frac :: "str \<Rightarrow> str \<times> str" where
  "match_frac s =
     (case s of
        c # r \<Rightarrow>
          if c = DOT \<and> takeWhile is_digit r \<noteq> []
          then (c # takeWhile is_digit r, dropWhile is_digit r)
          else ([], s)
      | [] \<Rightarrow> ([], s))"

definition match_exp :: "str \<Rightarrow> str \<times> str" where
  "match_exp s =
     (case s of
        c # r \<Rightarrow>
          if c = 101 \<or> c = 69 then
            (let (sg, r1) = (case r of x # r' \<Rightarrow> if x = PLUS \<or> x = MINUS then ([x], r')
                                              else ([], r)
                             | [] \<Rightarrow> ([], r))
             in if takeWhile is_digit r1 \<noteq> []
                then (c # sg @ takeWhile is_digit r1, dropWhile is_digit r1)
                else ([], s))
          else ([], s)
      | [] \<Rightarrow> ([], s))"

definition match_number :: "str \<Rightarrow> (str \<times> str \<times> str \<times> str) option" where
  "match_number s =
     (case match_int s of
        None \<Rightarrow> None
      | Some (integer, s1) \<Rightarrow>
          (let (frac, s2) = match_frac s1; (exp, s3) = match_exp s2
           in Some (integer, frac, exp, s3)))"

text \<open>\<open>int(integer)\<close> on a match of the integer part.\<close>

definition digits_val :: "str \<Rightarrow> nat" where
  "digits_val ds = foldl (\<lambda>a d. 10 * a + (d - DIGIT0)) 0 ds"

definition parse_int :: "str \<Rightarrow> int" where
  "parse_int s =
     (case s of
        c # r \<Rightarrow> if c = MINUS then - int (digits_val r) else int (digits_val s)
      | [] \<Rightarrow> 0)"

text \<open>\<open>dict(pairs)\<close>: a later pair with the same key replaces the value, in place.\<close>

definition dict :: "(str \<times> json) list \<Rightarrow> (str \<times> json) list" where
  "dict pairs = foldl (\<lambda>d (k, v). AList.update k v d) [] pairs"

text \<open>
  \<open>scan_once\<close>, \<open>JSONArray\<close> and \<open>JSONObject\<close>. Each returns the value and the text after
  it. The first argument bounds the depth of the calls; \<open>loads\<close> passes a bound that the
  text cannot reach.
\<close>

fun scan_once :: "nat \<Rightarrow> str \<Rightarrow> (json \<times> str) option"
  and JSONArray :: "nat \<Rightarrow> json list \<Rightarrow> str \<Rightarrow> (json \<times> str) option"
  and JSONObject :: "nat \<Rightarrow> (str \<times> json) list \<Rightarrow> str \<Rightarrow> (json \<times> str) option"
where
  "scan_once 0 s = None"
| "scan_once (Suc n) [] = None"
| "scan_once (Suc n) (c # cs) =
     (if c = QUOTE then map_option (\<lambda>(t, r). (JStr t, r)) (scanstring cs)
      else if c = LBRACE then
        (case skip_ws cs of
           [] \<Rightarrow> None
         | d # r \<Rightarrow>
             if d = RBRACE then Some (JObj [], r)
             else if d = QUOTE then JSONObject n [] r
             else None)
      else if c = LBRACKET then
        (case skip_ws cs of
           [] \<Rightarrow> None
         | d # r \<Rightarrow>
             if d = RBRACKET then Some (JArr [], r)
             else JSONArray n [] (d # r))
      else if take 4 (c # cs) = ascii ''null'' then Some (JNull, drop 3 cs)
      else if take 4 (c # cs) = ascii ''true'' then Some (JBool True, drop 3 cs)
      else if take 5 (c # cs) = ascii ''false'' then Some (JBool False, drop 4 cs)
      else
        (case match_number (c # cs) of
           Some (integer, frac, exp, r) \<Rightarrow>
             if frac \<noteq> [] \<or> exp \<noteq> []
             then Some (JFloat (integer @ frac @ exp), r)
             else Some (JInt (parse_int integer), r)
         | None \<Rightarrow>
             if take 3 (c # cs) = ascii ''NaN'' then Some (JFloat (ascii ''NaN''), drop 2 cs)
             else if take 8 (c # cs) = ascii ''Infinity''
             then Some (JFloat (ascii ''Infinity''), drop 7 cs)
             else if take 9 (c # cs) = ascii ''-Infinity''
             then Some (JFloat (ascii ''-Infinity''), drop 8 cs)
             else None))"
| "JSONArray 0 values s = None"
| "JSONArray (Suc n) values s =
     (case scan_once n s of
        None \<Rightarrow> None
      | Some (value, r) \<Rightarrow>
          (case skip_ws r of
             [] \<Rightarrow> None
           | d # r1 \<Rightarrow>
               if d = RBRACKET then Some (JArr (values @ [value]), r1)
               else if d \<noteq> COMMA then None
               else JSONArray n (values @ [value]) (skip_ws r1)))"
| "JSONObject 0 pairs s = None"
| "JSONObject (Suc n) pairs s =
     (case scanstring s of
        None \<Rightarrow> None
      | Some (key, r) \<Rightarrow>
          (case skip_ws r of
             [] \<Rightarrow> None
           | d # r1 \<Rightarrow>
               if d \<noteq> COLON then None
               else
                 (case scan_once n (skip_ws r1) of
                    None \<Rightarrow> None
                  | Some (value, r2) \<Rightarrow>
                      (case skip_ws r2 of
                         [] \<Rightarrow> None
                       | e # r3 \<Rightarrow>
                           if e = RBRACE then Some (JObj (dict (pairs @ [(key, value)])), r3)
                           else if e \<noteq> COMMA then None
                           else
                             (case skip_ws r3 of
                                [] \<Rightarrow> None
                              | q # r4 \<Rightarrow>
                                  if q = QUOTE
                                  then JSONObject n (pairs @ [(key, value)]) r4
                                  else None)))))"

text \<open>
  \<open>json.loads(s)\<close>: leading whitespace, one value, trailing whitespace, and nothing else
  (anything else is the error "Extra data").
\<close>

definition loads :: "str \<Rightarrow> error + json" where
  "loads s =
     (case scan_once (2 * length s + 2) (skip_ws s) of
        None \<Rightarrow> Inl JSONDecodeError
      | Some (obj, r) \<Rightarrow> if skip_ws r = [] then Inr obj else Inl JSONDecodeError)"

subsection \<open>Operations of Python that are parameters\<close>

text \<open>
  A \<open>float\<close> is kept as the literal it was read from, and two operations on such a
  value are parameters of the development: the text \<open>float.__repr__\<close> (and so
  \<open>json.dumps\<close>) writes for it, and whether it is non-zero. Two more are parameters:
  \<open>repr\<close> of a \<open>float\<close>, a \<open>list\<close> or a \<open>dict\<close>, which \<open>str\<close> and an f-string use for
  such a value, and the exception \<open>d[:50]\<close> raises on a \<open>dict\<close> (\<open>TypeError\<close> up to
  Python 3.11, \<open>KeyError\<close> since 3.12). Python's recursion limit and the size of
  memory are not modelled.
\<close>

record python =
  float_repr :: "str \<Rightarrow> str"
  float_bool :: "str \<Rightarrow> bool"
  repr :: "json \<Rightarrow> str"
  dict_slice_error :: error

subsection \<open>\<open>json.dumps\<close>\<close>

definition hexdigit :: "nat \<Rightarrow> nat" where
  "hexdigit d = (if d < 10 then 48 + d else 87 + d)"

text \<open>\<open>'\\u{0:04x}'.format(n)\<close>.\<close>

definition u_escape :: "nat \<Rightarrow> str" where
  "u_escape n = [BACKSLASH, 117, hexdigit (n div 4096 mod 16), hexdigit (n div 256 mod 16),
                 hexdigit (n div 16 mod 16), hexdigit (n mod 16)]"

text \<open>The replacement \<open>encode_basestring_ascii\<close> makes for one code point.\<close>

definition escape_char :: "nat \<Rightarrow> str" where
  "escape_char c =
     (if c = QUOTE then [BACKSLASH, QUOTE]
      else if c = BACKSLASH then [BACKSLASH, BACKSLASH]
      else if c = 8 then [BACKSLASH, 98]
      else if c = 12 then [BACKSLASH, 102]
      else if c = NEWLINE then [BACKSLASH, 110]
      else if c = CR then [BACKSLASH, 114]
      else if c = TAB then [BACKSLASH, 116]
      else if 32 \<le> c \<and> c \<le> 126 then [c]
      else if c < 65536 then u_escape c
      else u_escape (55296 + (c - 65536) div 1024 mod 1024)
           @ u_escape (56320 + (c - 65536) mod 1024))"

definition encode_basestring_ascii :: "str \<Rightarrow> str" where
  "encode_basestring_ascii s = QUOTE # concat (map escape_char s) @ [QUOTE]"

text \<open>\<open>str(n)\<close> for an \<open>int\<close>.\<close>

fun digits :: "nat \<Rightarrow> str" where
  "digits n = (if n < 10 then [DIGIT0 + n] else digits (n div 10) @ [DIGIT0 + n mod 10])"

declare digits.simps [simp del]

definition int_str :: "int \<Rightarrow> str" where
  "int_str i = (if i < 0 then MINUS # digits (nat (- i)) else digits (nat i))"

text \<open>\<open>', '.join(parts)\<close>.\<close>

fun join :: "str \<Rightarrow> str list \<Rightarrow> str" where
  "join sep [] = []"
| "join sep [x] = x"
| "join sep (x # y # ys) = x @ sep @ join sep (y # ys)"

text \<open>
  \<open>json.dumps(obj)\<close> with the defaults the script uses: \<open>ensure_ascii=True\<close>, item
  separator \<open>', '\<close>, key separator \<open>': '\<close>, keys in the order of the \<open>dict\<close>.
\<close>

fun dumps :: "python \<Rightarrow> json \<Rightarrow> str" where
  "dumps py JNull = ascii ''null''"
| "dumps py (JBool b) = (if b then ascii ''true'' else ascii ''false'')"
| "dumps py (JInt i) = int_str i"
| "dumps py (JFloat lit) = float_repr py lit"
| "dumps py (JStr s) = encode_basestring_ascii s"
| "dumps py (JArr vs) = LBRACKET # join (ascii '', '') (map (dumps py) vs) @ [RBRACKET]"
| "dumps py (JObj kvs) =
     LBRACE # join (ascii '', '')
                (map (\<lambda>kv. encode_basestring_ascii (fst kv) @ ascii '': '' @ dumps py (snd kv))
                   kvs)
     @ [RBRACE]"

section \<open>\<open>uuid.uuid4\<close>\<close>

text \<open>
  \<open>uuid.uuid4()\<close> is \<open>UUID(bytes=os.urandom(16), version=4)\<close>: the 128 random bits with
  the variant bits set to \<open>10\<close> and the version nibble set to \<open>4\<close>.
\<close>

definition uuid4 :: "128 word \<Rightarrow> 128 word" where
  "uuid4 r =
     (((r AND NOT (push_bit 48 0xc000)) OR push_bit 48 0x8000) AND NOT (push_bit 64 0xf000))
     OR push_bit 76 4"

text \<open>\<open>'%032x' % n\<close>.\<close>

definition hex32 :: "128 word \<Rightarrow> str" where
  "hex32 w = map (\<lambda>i. hexdigit (unat (drop_bit (4 * (31 - i)) w) mod 16)) [0..<32]"

text \<open>\<open>str(u)\<close> for a \<open>UUID\<close>: the 32 hexadecimal digits in groups of 8, 4, 4, 4 and 12.\<close>

definition uuid_str :: "128 word \<Rightarrow> str" where
  "uuid_str w =
     (let hex = hex32 w
      in take 8 hex @ [MINUS] @ take 4 (drop 8 hex) @ [MINUS] @ take 4 (drop 12 hex)
         @ [MINUS] @ take 4 (drop 16 hex) @ [MINUS] @ drop 20 hex)"

section \<open>The daemon's socket\<close>

text \<open>
  What the world outside the script does during one call: the random bits \<open>uuid4\<close>
  reads, whether \<open>connect\<close> and \<open>sendall\<close> succeed, and what each successive
  \<open>sock.recv(4096)\<close> returns: some bytes (\<open>b''\<close> once the peer has closed the connection)
  or an exception. A peer may go on sending for ever, so the results of \<open>recv\<close> are a
  stream.
\<close>

datatype recv = Data bytes | Fault

record endpoint =
  urandom :: "128 word"
  connects :: bool
  sends :: bool
  recvs :: "recv stream"

text \<open>What the script does to sockets, in order.\<close>

datatype event = Socket | Connect | Sendall bytes | Close

section \<open>\<open>call_daemon\<close>\<close>

text \<open>
  The request of lines 21 to 26. \<open>params or {}\<close> is \<open>params\<close> when it is a non-empty
  \<open>dict\<close> and a new empty one when it is \<open>None\<close> or empty.
\<close>

definition request :: "128 word \<Rightarrow> str \<Rightarrow> (str \<times> json) list option \<Rightarrow> json" where
  "request r method params =
     JObj [(ascii ''id'', JStr (uuid_str (uuid4 r))),
           (ascii ''v'', JInt 1),
           (ascii ''method'', JStr method),
           (ascii ''params'',
            JObj (case params of None \<Rightarrow> [] | Some p \<Rightarrow> if p \<noteq> [] then p else []))]"

text \<open>\<open>(json.dumps(request) + "\n").encode()\<close>, the argument of \<open>sendall\<close>.\<close>

definition payload :: "python \<Rightarrow> json \<Rightarrow> error + bytes" where
  "payload py req = encode (dumps py req @ [NEWLINE])"

text \<open>
  The loop of lines 32 to 39. It has no bound of its own: with a peer that neither
  closes nor sends a newline it does not return, which is the value \<open>None\<close>.
\<close>

partial_function (option) recv_loop :: "recv stream \<Rightarrow> bytes \<Rightarrow> (error + bytes) option" where
  "recv_loop s response =
     (case shd s of
        Fault \<Rightarrow> Some (Inl OSError)
      | Data chunk \<Rightarrow>
          if chunk = [] then Some (Inr response)
          else if CHR 0x0A \<in> set (response @ chunk) then Some (Inr (response @ chunk))
          else recv_loop (stl s) (response @ chunk))"

declare recv_loop.simps [code]

text \<open>\<open>json.loads(response.decode().strip())\<close>, line 41.\<close>

definition parse_response :: "bytes \<Rightarrow> error + json" where
  "parse_response response =
     (case decode response of
        Inl e \<Rightarrow> Inl e
      | Inr text \<Rightarrow> loads (strip text))"

text \<open>The body of the \<open>with\<close> statement, lines 29 to 41.\<close>

definition with_body :: "python \<Rightarrow> endpoint \<Rightarrow> json \<Rightarrow> ((error + json) \<times> event list) option" where
  "with_body py ep req =
     (if \<not> connects ep then Some (Inl OSError, [Connect])
      else
        (case payload py req of
           Inl e \<Rightarrow> Some (Inl e, [Connect])
         | Inr data \<Rightarrow>
             if \<not> sends ep then Some (Inl OSError, [Connect, Sendall data])
             else
               (case recv_loop (recvs ep) [] of
                  None \<Rightarrow> None
                | Some (Inl e) \<Rightarrow> Some (Inl e, [Connect, Sendall data])
                | Some (Inr response) \<Rightarrow>
                    Some (parse_response response, [Connect, Sendall data]))))"

text \<open>
  \<open>call_daemon(method, params)\<close>: the value returned or the exception raised, and what
  was done to the socket. \<open>with socket.socket(...) as sock\<close> creates the socket before
  the body and closes it when the body is left, by \<open>return\<close> or by an exception.
\<close>

definition call_daemon ::
  "python \<Rightarrow> endpoint \<Rightarrow> str \<Rightarrow> (str \<times> json) list option \<Rightarrow> ((error + json) \<times> event list) option"
where
  "call_daemon py ep method params =
     (case with_body py ep (request (urandom ep) method params) of
        None \<Rightarrow> None
      | Some (res, evs) \<Rightarrow> Some (res, Socket # evs @ [Close]))"

section \<open>The presentation routines\<close>

subsection \<open>The operations of Python they use\<close>

text \<open>\<open>str(x)\<close>, what an f-string puts in place of \<open>{x}\<close>.\<close>

definition str_of :: "python \<Rightarrow> json \<Rightarrow> str" where
  "str_of py x =
     (case x of
        JNull \<Rightarrow> ascii ''None''
      | JBool b \<Rightarrow> (if b then ascii ''True'' else ascii ''False'')
      | JInt i \<Rightarrow> int_str i
      | JStr s \<Rightarrow> s
      | _ \<Rightarrow> repr py x)"

text \<open>The truth value of \<open>x\<close> in \<open>if x\<close> and \<open>if not x\<close>.\<close>

definition truthy :: "python \<Rightarrow> json \<Rightarrow> bool" where
  "truthy py x =
     (case x of
        JNull \<Rightarrow> False
      | JBool b \<Rightarrow> b
      | JInt i \<Rightarrow> i \<noteq> 0
      | JFloat lit \<Rightarrow> float_bool py lit
      | JStr s \<Rightarrow> s \<noteq> []
      | JArr xs \<Rightarrow> xs \<noteq> []
      | JObj kvs \<Rightarrow> kvs \<noteq> [])"

text \<open>\<open>x.get(key, default)\<close>: only a \<open>dict\<close> has the method.\<close>

definition dict_get :: "json \<Rightarrow> str \<Rightarrow> json \<Rightarrow> error + json" where
  "dict_get x key dflt =
     (case x of
        JObj kvs \<Rightarrow> Inr (case map_of kvs key of None \<Rightarrow> dflt | Some v \<Rightarrow> v)
      | _ \<Rightarrow> Inl AttributeError)"

text \<open>\<open>x[key]\<close> with a \<open>str\<close> key.\<close>

definition getitem :: "json \<Rightarrow> str \<Rightarrow> error + json" where
  "getitem x key =
     (case x of
        JObj kvs \<Rightarrow> (case map_of kvs key of None \<Rightarrow> Inl KeyError | Some v \<Rightarrow> Inr v)
      | _ \<Rightarrow> Inl TypeError)"

text \<open>
  The items \<open>for item in x\<close> visits: the elements of a \<open>list\<close>, the characters of a
  \<open>str\<close>, the keys of a \<open>dict\<close>; the other values are not iterable.
\<close>

definition iterate :: "json \<Rightarrow> error + json list" where
  "iterate x =
     (case x of
        JArr xs \<Rightarrow> Inr xs
      | JStr s \<Rightarrow> Inr (map (\<lambda>c. JStr [c]) s)
      | JObj kvs \<Rightarrow> Inr (map (\<lambda>kv. JStr (fst kv)) kvs)
      | _ \<Rightarrow> Inl TypeError)"

text \<open>\<open>x[:50]\<close>.\<close>

definition slice50 :: "python \<Rightarrow> json \<Rightarrow> error + json" where
  "slice50 py x =
     (case x of
        JStr s \<Rightarrow> Inr (JStr (take 50 s))
      | JArr xs \<Rightarrow> Inr (JArr (take 50 xs))
      | JObj kvs \<Rightarrow> Inl (dict_slice_error py)
      | _ \<Rightarrow> Inl TypeError)"

subsection \<open>Standard output\<close>

text \<open>
  Standard output is the list of the strings printed so far, one for each call of
  \<open>print\<close> (which ends each with a newline). A statement of a routine takes what has
  been printed and gives its value or the exception it raises, together with what has
  been printed then.
\<close>

type_synonym stdout = "str list"

type_synonym 'a io = "stdout \<Rightarrow> (error + 'a) \<times> stdout"

definition ok :: "'a \<Rightarrow> 'a io" where
  "ok x out = (Inr x, out)"

definition raise :: "error \<Rightarrow> 'a io" where
  "raise e out = (Inl e, out)"

text \<open>An expression that prints nothing.\<close>

definition attempt :: "error + 'a \<Rightarrow> 'a io" where
  "attempt r = (case r of Inl e \<Rightarrow> raise e | Inr x \<Rightarrow> ok x)"

text \<open>One statement after another: an exception of the first leaves the second out.\<close>

definition and_then :: "'a io \<Rightarrow> ('a \<Rightarrow> 'b io) \<Rightarrow> 'b io" where
  "and_then m f out = (case m out of (Inl e, out') \<Rightarrow> (Inl e, out') | (Inr x, out') \<Rightarrow> f x out')"

text \<open>
  \<open>print(s)\<close>. Standard output encodes with UTF-8 and \<open>errors='strict'\<close>, so a string
  with a surrogate code point raises \<open>UnicodeEncodeError\<close> and nothing of it is written.
\<close>

definition print :: "str \<Rightarrow> unit io" where
  "print s out = (case encode s of Inl e \<Rightarrow> (Inl e, out) | Inr b \<Rightarrow> (Inr (), out @ [s]))"

text \<open>A \<open>for\<close> loop: the body is run for each item in turn, until one raises.\<close>

fun for_each :: "(json \<Rightarrow> unit io) \<Rightarrow> json list \<Rightarrow> unit io" where
  "for_each body [] out = (Inr (), out)"
| "for_each body (x # xs) out =
     (case body x out of
        (Inl e, out') \<Rightarrow> (Inl e, out')
      | (Inr u, out') \<Rightarrow> for_each body xs out')"

text \<open>\<open>"-" * 40\<close>.\<close>

definition rule40 :: str where
  "rule40 = replicate 40 MINUS"

subsection \<open>\<open>list_projects\<close>\<close>

text \<open>The body of the loop, lines 56 to 60.\<close>

definition show_project :: "python \<Rightarrow> json \<Rightarrow> unit io" where
  "show_project py project =
     and_then (attempt (dict_get project (ascii ''framework'') (JStr (ascii ''unknown''))))
       (\<lambda>framework.
     and_then (attempt (dict_get project (ascii ''name'') JNull))
       (\<lambda>name.
     and_then (print (ascii ''  '' @ [8226] @ ascii '' '' @ str_of py name))
       (\<lambda>u.
     and_then (print (ascii ''    Framework: '' @ str_of py framework))
       (\<lambda>u.
     and_then (attempt (dict_get project (ascii ''updatedAt'') (JStr (ascii ''unknown''))))
       (\<lambda>updated.
     and_then (print (ascii ''    Updated: '' @ str_of py updated))
       (\<lambda>u.
     print []))))))"

text \<open>Lines 51 to 62: what is done with the response.\<close>

definition show_projects :: "python \<Rightarrow> json \<Rightarrow> unit io" where
  "show_projects py result =
     and_then (attempt (dict_get result (ascii ''ok'') JNull))
       (\<lambda>flag.
          if truthy py flag then
            and_then (attempt (getitem result (ascii ''result'')))
              (\<lambda>res.
            and_then (attempt (dict_get res (ascii ''projects'') (JArr [])))
              (\<lambda>projects.
            and_then (if \<not> truthy py projects then print (ascii ''  No projects found'')
                      else ok ())
              (\<lambda>u.
            and_then (attempt (iterate projects))
              (\<lambda>items.
            for_each (show_project py) items))))
          else
            and_then (attempt (dict_get result (ascii ''error'') JNull))
              (\<lambda>err.
            print (ascii ''  '' @ [10060] @ ascii '' Error: '' @ str_of py err)))"

text \<open>
  \<open>list_projects()\<close>: whether it returns or raises, what it has printed, and what it did
  to sockets. It does not return when \<open>call_daemon\<close> does not.
\<close>

definition list_projects ::
  "python \<Rightarrow> endpoint \<Rightarrow> ((error + unit) \<times> stdout \<times> event list) option"
where
  "list_projects py ep =
     (case and_then (print ([NEWLINE, 128640] @ ascii '' Vercel Projects''))
             (\<lambda>u. print rule40) [] of
        (Inl e, out) \<Rightarrow> Some (Inl e, out, [])
      | (Inr u, out) \<Rightarrow>
          (case call_daemon py ep (ascii ''vercel.projects'') (Some []) of
             None \<Rightarrow> None
           | Some (Inl e, evs) \<Rightarrow> Some (Inl e, out, evs)
           | Some (Inr result, evs) \<Rightarrow>
               (case show_projects py result out of (r, out') \<Rightarrow> Some (r, out', evs))))"

subsection \<open>\<open>list_deployments\<close>\<close>

text \<open>The \<open>dict\<close> literal of lines 83 to 88 and the default of its \<open>get\<close>.\<close>

definition state_icons :: "(str \<times> str) list" where
  "state_icons =
     [(ascii ''READY'', [128994]),
      (ascii ''ERROR'', [128308]),
      (ascii ''BUILDING'', [128993]),
      (ascii ''QUEUED'', [9898])]"

definition default_icon :: str where
  "default_icon = [9898]"

text \<open>
  \<open>{...}.get(state, default)\<close>: the key is hashed first, which a \<open>list\<close> and a \<open>dict\<close> do
  not support; a key that is not a \<open>str\<close> equals none of the table's.
\<close>

definition state_icon :: "json \<Rightarrow> error + str" where
  "state_icon state =
     (case state of
        JArr _ \<Rightarrow> Inl TypeError
      | JObj _ \<Rightarrow> Inl TypeError
      | JStr s \<Rightarrow> Inr (case map_of state_icons s of None \<Rightarrow> default_icon | Some icon \<Rightarrow> icon)
      | _ \<Rightarrow> Inr default_icon)"

text \<open>The body of the loop, lines 82 to 95.\<close>

definition show_deployment :: "python \<Rightarrow> json \<Rightarrow> unit io" where
  "show_deployment py deploy =
     and_then (attempt (dict_get deploy (ascii ''state'') (JStr (ascii ''unknown''))))
       (\<lambda>state.
     and_then (attempt (state_icon state))
       (\<lambda>icon.
     and_then (attempt (dict_get deploy (ascii ''url'') (JStr (ascii ''no-url''))))
       (\<lambda>url.
     and_then (print (ascii ''  '' @ icon @ ascii '' '' @ str_of py url))
       (\<lambda>u.
     and_then (print (ascii ''     State: '' @ str_of py state))
       (\<lambda>u.
     and_then (attempt (dict_get deploy (ascii ''created'') (JStr (ascii ''unknown''))))
       (\<lambda>created.
     and_then (print (ascii ''     Created: '' @ str_of py created))
       (\<lambda>u.
     and_then (attempt (dict_get deploy (ascii ''meta'') (JObj [])))
       (\<lambda>meta.
     and_then (attempt (dict_get meta (ascii ''githubCommitMessage'') JNull))
       (\<lambda>msg.
     and_then
       (if truthy py msg then
          and_then (attempt (getitem deploy (ascii ''meta'')))
            (\<lambda>meta'.
          and_then (attempt (getitem meta' (ascii ''githubCommitMessage'')))
            (\<lambda>msg'.
          and_then (attempt (slice50 py msg'))
            (\<lambda>short.
          print (ascii ''     Commit: '' @ str_of py short @ ascii ''...''))))
        else ok ())
       (\<lambda>u.
     print []))))))))))"

text \<open>Lines 77 to 97: what is done with the response.\<close>

definition show_deployments :: "python \<Rightarrow> json \<Rightarrow> unit io" where
  "show_deployments py result =
     and_then (attempt (dict_get result (ascii ''ok'') JNull))
       (\<lambda>flag.
          if truthy py flag then
            and_then (attempt (getitem result (ascii ''result'')))
              (\<lambda>res.
            and_then (attempt (dict_get res (ascii ''deployments'') (JArr [])))
              (\<lambda>deployments.
            and_then (if \<not> truthy py deployments then print (ascii ''  No deployments found'')
                      else ok ())
              (\<lambda>u.
            and_then (attempt (iterate deployments))
              (\<lambda>items.
            for_each (show_deployment py) items))))
          else
            and_then (attempt (dict_get result (ascii ''error'') JNull))
              (\<lambda>err.
            print (ascii ''  '' @ [10060] @ ascii '' Error: '' @ str_of py err)))"

text \<open>
  The arguments of lines 67 to 75: \<open>project_name\<close> is \<open>None\<close> or a \<open>str\<close> and counts as
  absent when it is empty.
\<close>

definition given :: "str option \<Rightarrow> bool" where
  "given project_name = (case project_name of None \<Rightarrow> False | Some name \<Rightarrow> name \<noteq> [])"

definition deployments_params :: "str option \<Rightarrow> int \<Rightarrow> (str \<times> json) list" where
  "deployments_params project_name limit =
     [(ascii ''limit'', JInt limit)]
     @ (if given project_name then [(ascii ''project'', JStr (the project_name))] else [])"

definition deployments_header :: "str option \<Rightarrow> str" where
  "deployments_header project_name =
     [NEWLINE, 128230] @ ascii '' Recent Deployments ''
     @ (if given project_name then ascii ''for '' @ the project_name else [])"

text \<open>\<open>list_deployments(project_name, limit)\<close>.\<close>

definition list_deployments ::
  "python \<Rightarrow> endpoint \<Rightarrow> str option \<Rightarrow> int \<Rightarrow> ((error + unit) \<times> stdout \<times> event list) option"
where
  "list_deployments py ep project_name limit =
     (case and_then (print (deployments_header project_name)) (\<lambda>u. print rule40) [] of
        (Inl e, out) \<Rightarrow> Some (Inl e, out, [])
      | (Inr u, out) \<Rightarrow>
          (case call_daemon py ep (ascii ''vercel.deployments'')
                  (Some (deployments_params project_name limit)) of
             None \<Rightarrow> None
           | Some (Inl e, evs) \<Rightarrow> Some (Inl e, out, evs)
           | Some (Inr result, evs) \<Rightarrow>
               (case show_deployments py result out of (r, out') \<Rightarrow> Some (r, out', evs))))"

text \<open>\<open>deploy.get("state", "unknown")\<close> and \<open>deploy.get('url', 'no-url')\<close> of a record.\<close>

definition state_of :: "(str \<times> json) list \<Rightarrow> json" where
  "state_of kvs =
     (case map_of kvs (ascii ''state'') of None \<Rightarrow> JStr (ascii ''unknown'') | Some v \<Rightarrow> v)"

definition url_of :: "(str \<times> json) list \<Rightarrow> json" where
  "url_of kvs =
     (case map_of kvs (ascii ''url'') of None \<Rightarrow> JStr (ascii ''no-url'') | Some v \<Rightarrow> v)"

section \<open>The values the properties are about\<close>

text \<open>
  A code point of a Python \<open>str\<close> is below \<open>0x110000\<close>. \<open>wf_json\<close> holds for the Python
  values built from \<open>None\<close>, \<open>bool\<close>, \<open>int\<close>, \<open>str\<close>, \<open>list\<close> and \<open>dict\<close> with \<open>str\<close>
  keys; a value containing a \<open>float\<close> is left out.
\<close>

definition code_point :: "nat \<Rightarrow> bool" where
  "code_point c \<longleftrightarrow> c < 1114112"

fun wf_json :: "json \<Rightarrow> bool" where
  "wf_json JNull = True"
| "wf_json (JBool b) = True"
| "wf_json (JInt i) = True"
| "wf_json (JFloat lit) = False"
| "wf_json (JStr s) = list_all code_point s"
| "wf_json (JArr vs) = list_all wf_json vs"
| "wf_json (JObj kvs) = list_all (\<lambda>kv. list_all code_point (fst kv) \<and> wf_json (snd kv)) kvs"

text \<open>
  What the decoder reads back from the escapes of a \<open>str\<close>: the same code points,
  except that a high surrogate directly followed by a low one has become the one code
  point the pair stands for.
\<close>

fun paired :: "str \<Rightarrow> str" where
  "paired (a # b # cs) =
     (if is_high a \<and> is_low b then surrogates a b # paired cs else a # paired (b # cs))"
| "paired [a] = [a]"
| "paired [] = []"

fun normal :: "json \<Rightarrow> json" where
  "normal (JStr s) = JStr (paired s)"
| "normal (JArr vs) = JArr (map normal vs)"
| "normal (JObj kvs) = JObj (dict (map (\<lambda>kv. (paired (fst kv), normal (snd kv))) kvs))"
| "normal v = v"

text \<open>
  A JSON value in the strict sense: its strings are sequences of Unicode scalar values
  (no surrogate code points), the keys of each object are distinct, and it has no
  \<open>float\<close>.
\<close>

definition scalar :: "nat \<Rightarrow> bool" where
  "scalar c \<longleftrightarrow> c < 1114112 \<and> \<not> (55296 \<le> c \<and> c \<le> 57343)"

fun json_value :: "json \<Rightarrow> bool" where
  "json_value JNull = True"
| "json_value (JBool b) = True"
| "json_value (JInt i) = True"
| "json_value (JFloat lit) = False"
| "json_value (JStr s) = list_all scalar s"
| "json_value (JArr vs) = list_all json_value vs"
| "json_value (JObj kvs) =
     (distinct (map fst kvs)
      \<and> list_all (\<lambda>kv. list_all scalar (fst kv) \<and> json_value (snd kv)) kvs)"

text \<open>What may follow a number: the end of the text, or a character that cannot continue it.\<close>

definition ends_number :: "str \<Rightarrow> bool" where
  "ends_number rest \<longleftrightarrow>
     (case rest of [] \<Rightarrow> True | c # _ \<Rightarrow> \<not> is_digit c \<and> c \<noteq> DOT \<and> c \<noteq> 101 \<and> c \<noteq> 69)"

text \<open>The text \<open>json.dumps\<close> writes for one item of a \<open>dict\<close>.\<close>

definition dumps_item :: "python \<Rightarrow> str \<times> json \<Rightarrow> str" where
  "dumps_item py kv = encode_basestring_ascii (fst kv) @ ascii '': '' @ dumps py (snd kv)"

text \<open>A peer that has closed the connection: every further \<open>recv\<close> returns \<open>b''\<close>.\<close>

definition closed :: "recv stream" where
  "closed = sconst (Data [])"

text \<open>A string that UTF-8 can encode: it has no surrogate code point.\<close>

definition encodable :: "str \<Rightarrow> bool" where
  "encodable s = list_all (\<lambda>c. \<not> (55296 \<le> c \<and> c \<le> 57343)) s"

text \<open>A statement that only adds to what has been printed.\<close>

definition extends :: "'a io \<Rightarrow> bool" where
  "extends m \<longleftrightarrow> (\<forall>out. \<exists>tail. snd (m out) = out @ tail)"

text \<open>
  A daemon that accepts the connection and the request, answers with the bytes \<open>line\<close>
  in one piece and closes; and two answers to \<open>vercel.deployments\<close> and
  \<open>vercel.projects\<close>.
\<close>

definition answering :: "bytes \<Rightarrow> endpoint" where
  "answering line = \<lparr>urandom = 0, connects = True, sends = True, recvs = Data line ## closed\<rparr>"

definition two_deployments :: bytes where
  "two_deployments =
     ''{\"ok\": true, \"result\": {\"deployments\": [{\"state\": \"CANCELED\"}, ''
     @ ''{\"state\": \"READY\", \"url\": \"a.app\"}]}}'' @ [CHR 0x0A]"


text \<open>Three answers to \<open>vercel.projects\<close>; the error text of the last is \<open>"\ud800"\<close>.\<close>

definition rate_limited :: bytes where
  "rate_limited = ''{\"ok\": false, \"error\": \"rate limited\"}'' @ [CHR 0x0A]"

definition no_projects :: bytes where
  "no_projects = ''{\"ok\": true, \"result\": {\"projects\": []}}'' @ [CHR 0x0A]"

definition surrogate_error :: bytes where
  "surrogate_error =
     ''{\"ok\": false, \"error\": \"'' @ [CHR 0x5C] @ ''ud800\"}'' @ [CHR 0x0A]"

text \<open>The first line \<open>list_projects\<close> prints, and \<open>project.get('name')\<close> of a record.\<close>

definition projects_header :: str where
  "projects_header = [NEWLINE, 128640] @ ascii '' Vercel Projects''"

definition name_of :: "(str \<times> json) list \<Rightarrow> json" where
  "name_of kvs = (case map_of kvs (ascii ''name'') of None \<Rightarrow> JNull | Some v \<Rightarrow> v)"

(*THEOREMS*)

lemma ascii_simps [simp]: "ascii [] = []" "ascii (c # cs) = of_char c # ascii cs"
  by (simp_all add: ascii_def)

section \<open>\<open>json.loads\<close> reads back what \<open>json.dumps\<close> writes\<close>

subsection \<open>Strings\<close>

lemma hexdigit_lt: "d < 16 \<Longrightarrow> hexdigit d < 128"
  by (simp add: hexdigit_def)

lemma hexval_hexdigit: "d < 16 \<Longrightarrow> hexval (hexdigit d) = Some d"
  by (auto simp: hexval_def hexdigit_def)

lemma hex4_value:
  fixes n :: nat
  assumes "n < 65536"
  shows "n div 4096 mod 16 * 4096 + n div 256 mod 16 * 256 + n div 16 mod 16 * 16 + n mod 16 = n"
proof -
  define a where "a = n div 16"
  define b where "b = a div 16"
  define c where "c = b div 16"
  have n: "n = 16 * a + n mod 16" by (simp add: a_def)
  have a: "a = 16 * b + a mod 16" by (simp add: b_def)
  have b: "b = 16 * c + b mod 16" by (simp add: c_def)
  have c: "c < 16" using assms by (simp add: a_def b_def c_def div_mult2_eq [symmetric])
  have e1: "n div 256 = b" by (simp add: a_def b_def div_mult2_eq [symmetric])
  have e2: "n div 4096 = c" by (simp add: a_def b_def c_def div_mult2_eq [symmetric])
  have e3: "n div 16 = a" by (simp add: a_def)
  show ?thesis
    unfolding e1 e2 e3 using n a b c by simp
qed

lemma decode_u_escape:
  assumes "n < 65536"
  shows "decode_uXXXX (drop 2 (u_escape n) @ rest) = Some n"
proof -
  have "decode_uXXXX (drop 2 (u_escape n) @ rest)
        = Some (n div 4096 mod 16 * 4096 + n div 256 mod 16 * 256 + n div 16 mod 16 * 16 + n mod 16)"
    unfolding decode_uXXXX_def u_escape_def
    by (simp only: drop_Suc_Cons drop_0 numeral_2_eq_2 append_Cons append_Nil list.case
          hexval_hexdigit mod_less_divisor zero_less_numeral option.case prod.case)
  then show ?thesis by (simp only: hex4_value [OF assms])
qed


lemma u_escape_Cons: "u_escape n = BACKSLASH # 117 # drop 2 (u_escape n)"
  by (simp add: u_escape_def)

lemma length_hex4: "length (drop 2 (u_escape n)) = 4"
  by (simp add: u_escape_def)

lemma scanstring_u_escape:
  assumes "n < 65536"
  shows "scanstring (u_escape n @ Y) =
     (if is_high n \<and> take 2 Y = [BACKSLASH, 117] then
        (case decode_uXXXX (drop 2 Y) of
           None \<Rightarrow> None
         | Some u2 \<Rightarrow>
             if is_low u2
             then map_option (\<lambda>(t, r). (surrogates n u2 # t, r)) (scanstring (drop 6 Y))
             else map_option (\<lambda>(t, r). (n # t, r)) (scanstring Y))
      else map_option (\<lambda>(t, r). (n # t, r)) (scanstring Y))"
proof -
  define hs where "hs = drop 2 (u_escape n)"
  have l: "length hs = 4" unfolding hs_def by (rule length_hex4)
  have d: "decode_uXXXX (hs @ Y) = Some n"
    unfolding hs_def by (rule decode_u_escape [OF assms])
  have u: "u_escape n = BACKSLASH # 117 # hs"
    unfolding hs_def by (rule u_escape_Cons)
  have d4: "drop 4 (hs @ Y) = Y" "drop 6 (hs @ Y) = drop 2 Y" "drop 10 (hs @ Y) = drop 6 Y"
    using l by simp_all
  show ?thesis
    unfolding u by (simp add: d l split: option.splits)
qed

lemma surrogates_split:
  assumes "65536 \<le> a" and "a < 1114112"
  shows "surrogates (55296 + (a - 65536) div 1024 mod 1024) (56320 + (a - 65536) mod 1024) = a"
proof -
  have "(a - 65536) div 1024 < 1024" using assms by simp
  then have "(a - 65536) div 1024 mod 1024 = (a - 65536) div 1024" by simp
  then show ?thesis using assms by (simp add: surrogates_def)
qed

lemma scanstring_escape_char:
  assumes "code_point a"
    and "is_high a \<longrightarrow> take 2 Y \<noteq> [BACKSLASH, 117]
           \<or> (\<exists>u. decode_uXXXX (drop 2 Y) = Some u \<and> \<not> is_low u)"
  shows "scanstring (escape_char a @ Y) = map_option (\<lambda>(t, r). (a # t, r)) (scanstring Y)"
proof -
  consider (special) "a \<in> {QUOTE, BACKSLASH, 8, 12, NEWLINE, CR, TAB}"
    | (printable) "a \<notin> {QUOTE, BACKSLASH, 8, 12, NEWLINE, CR, TAB}" "32 \<le> a" "a \<le> 126"
    | (bmp) "a \<notin> {QUOTE, BACKSLASH, 8, 12, NEWLINE, CR, TAB}" "\<not> (32 \<le> a \<and> a \<le> 126)" "a < 65536"
    | (astral) "65536 \<le> a"
    by fastforce
  then show ?thesis
  proof cases
    case special
    then show ?thesis by (auto simp: escape_char_def backslash_def)
  next
    case printable
    then show ?thesis by (auto simp: escape_char_def)
  next
    case bmp
    then have e: "escape_char a = u_escape a" by (auto simp: escape_char_def)
    show ?thesis
      unfolding e scanstring_u_escape [OF bmp(3)] using assms(2) by (auto split: option.splits)
  next
    case astral
    define hi where "hi = 55296 + (a - 65536) div 1024 mod 1024"
    define lo where "lo = 56320 + (a - 65536) mod 1024"
    have hi: "hi < 65536" "is_high hi" by (simp_all add: hi_def is_high_def)
    have lo: "lo < 65536" "is_low lo" by (simp_all add: lo_def is_low_def)
    have e: "escape_char a = u_escape hi @ u_escape lo"
      using astral by (simp add: escape_char_def hi_def lo_def)
    have s: "surrogates hi lo = a"
      unfolding hi_def lo_def using astral assms(1) by (intro surrogates_split) (simp_all add: code_point_def)
    have t: "take 2 (u_escape lo @ Y) = [BACKSLASH, 117]" by (simp add: u_escape_def)
    have d: "decode_uXXXX (drop 2 (u_escape lo @ Y)) = Some lo"
      using decode_u_escape [OF lo(1), of Y] by (simp add: u_escape_def)
    have d6: "drop 6 (u_escape lo @ Y) = Y" by (simp add: u_escape_def)
    show ?thesis
      unfolding e append_assoc scanstring_u_escape [OF hi(1)]
      by (simp only: hi lo t d d6 s simp_thms if_True option.case)
  qed
qed


lemma escape_char_not_low_start:
  assumes "code_point b" and "\<not> is_low b"
  shows "take 2 (escape_char b @ Z) \<noteq> [BACKSLASH, 117]
           \<or> (\<exists>u. decode_uXXXX (drop 2 (escape_char b @ Z)) = Some u \<and> \<not> is_low u)"
proof -
  consider (special) "b \<in> {QUOTE, BACKSLASH, 8, 12, NEWLINE, CR, TAB}"
    | (printable) "b \<notin> {QUOTE, BACKSLASH, 8, 12, NEWLINE, CR, TAB}" "32 \<le> b" "b \<le> 126"
    | (bmp) "b \<notin> {QUOTE, BACKSLASH, 8, 12, NEWLINE, CR, TAB}" "\<not> (32 \<le> b \<and> b \<le> 126)" "b < 65536"
    | (astral) "65536 \<le> b"
    by fastforce
  then show ?thesis
  proof cases
    case special
    then have "take 2 (escape_char b @ Z) \<noteq> [BACKSLASH, 117]"
      by (auto simp: escape_char_def)
    then show ?thesis by (rule disjI1)
  next
    case printable
    then have "take 2 (escape_char b @ Z) \<noteq> [BACKSLASH, 117]"
      by (auto simp: escape_char_def)
    then show ?thesis by (rule disjI1)
  next
    case bmp
    then have e: "escape_char b = u_escape b" by (auto simp: escape_char_def)
    have "decode_uXXXX (drop 2 (u_escape b @ Z)) = Some b"
      using decode_u_escape [OF bmp(3), of Z] by (simp add: u_escape_def)
    with assms(2) show ?thesis unfolding e by blast
  next
    case astral
    define hi where "hi = 55296 + (b - 65536) div 1024 mod 1024"
    define lo where "lo = 56320 + (b - 65536) mod 1024"
    have hi: "hi < 65536" "\<not> is_low hi" by (simp_all add: hi_def is_low_def)
    have e: "escape_char b = u_escape hi @ u_escape lo"
      using astral by (simp add: escape_char_def hi_def lo_def)
    have "decode_uXXXX (drop 2 (u_escape hi @ u_escape lo @ Z)) = Some hi"
      using decode_u_escape [OF hi(1), of "u_escape lo @ Z"] by (simp add: u_escape_def)
    with hi(2) show ?thesis unfolding e append_assoc by blast
  qed
qed

lemma escape_char_surrogate:
  assumes "55296 \<le> a" and "a \<le> 57343"
  shows "escape_char a = u_escape a"
  using assms by (simp add: escape_char_def)

lemma scanstring_escaped:
  assumes "list_all code_point s"
  shows "scanstring (concat (map escape_char s) @ QUOTE # rest) = Some (paired s, rest)"
  using assms
proof (induction s rule: paired.induct)
  case (1 a b cs)
  let ?X = "concat (map escape_char cs) @ QUOTE # rest"
  show ?case
  proof (cases "is_high a \<and> is_low b")
    case True
    then have ea: "escape_char a = u_escape a" and eb: "escape_char b = u_escape b"
      by (auto simp: is_high_def is_low_def intro: escape_char_surrogate)
    from True have a: "a < 65536" and b: "b < 65536" by (auto simp: is_high_def is_low_def)
    have t: "take 2 (u_escape b @ ?X) = [BACKSLASH, 117]" by (simp add: u_escape_def)
    have d: "decode_uXXXX (drop 2 (u_escape b @ ?X)) = Some b"
      using decode_u_escape [OF b, of ?X] by (simp add: u_escape_def)
    have d6: "drop 6 (u_escape b @ ?X) = ?X" by (simp add: u_escape_def)
    have ih: "scanstring ?X = Some (paired cs, rest)"
      using 1 True by simp
    have "scanstring (u_escape a @ u_escape b @ ?X) = Some (surrogates a b # paired cs, rest)"
      unfolding scanstring_u_escape [OF a]
      using True by (simp only: t d d6 ih simp_thms if_True option.case option.map prod.case)
    then show ?thesis using True by (simp add: ea eb)
  next
    case False
    let ?Y = "escape_char b @ ?X"
    have cp: "code_point a" "code_point b" using 1(3) by simp_all
    have c: "is_high a \<longrightarrow> take 2 ?Y \<noteq> [BACKSLASH, 117]
               \<or> (\<exists>u. decode_uXXXX (drop 2 ?Y) = Some u \<and> \<not> is_low u)"
      using False escape_char_not_low_start [OF cp(2), of ?X] by blast
    have ih: "scanstring ?Y = Some (paired (b # cs), rest)"
      using 1 False by simp
    have "scanstring (escape_char a @ ?Y) = Some (a # paired (b # cs), rest)"
      unfolding scanstring_escape_char [OF cp(1) c] ih by simp
    then show ?thesis using False by auto
  qed
next
  case (2 a)
  have cp: "code_point a" using 2 by simp
  have "scanstring (escape_char a @ QUOTE # rest) = Some ([a], rest)"
    unfolding scanstring_escape_char [OF cp, of "QUOTE # rest", simplified] by simp
  then show ?case by simp
next
  case 3
  show ?case by simp
qed

subsection \<open>Integers\<close>

lemma digits_all: "list_all is_digit (digits n)"
proof (induction n rule: digits.induct)
  case (1 n)
  show ?case
  proof (cases "n < 10")
    case True
    then show ?thesis by (subst digits.simps) (simp add: is_digit_def)
  next
    case False
    then have "list_all is_digit (digits (n div 10))" by (rule 1)
    moreover have "n mod 10 < 10" by simp
    ultimately show ?thesis using False
      by (subst digits.simps) (simp add: is_digit_def)
  qed
qed

lemma digits_nonempty: "digits n \<noteq> []"
  by (subst digits.simps) simp

lemma digits_val_append: "digits_val (xs @ [d]) = 10 * digits_val xs + (d - DIGIT0)"
  by (simp add: digits_val_def)

lemma digits_val_digits: "digits_val (digits n) = n"
proof (induction n rule: digits.induct)
  case (1 n)
  show ?case
  proof (cases "n < 10")
    case True
    then show ?thesis by (subst digits.simps) (simp add: digits_val_def)
  next
    case False
    then have "digits_val (digits (n div 10)) = n div 10" by (rule 1)
    then show ?thesis using False
      by (subst digits.simps) (simp add: digits_val_append)
  qed
qed

lemma hd_digits: "hd (digits n) = DIGIT0 \<longleftrightarrow> n = 0"
proof (induction n rule: digits.induct)
  case (1 n)
  show ?case
  proof (cases "n < 10")
    case True
    then show ?thesis by (subst digits.simps) auto
  next
    case False
    then have "hd (digits (n div 10)) = DIGIT0 \<longleftrightarrow> n div 10 = 0" by (rule 1)
    moreover have "n div 10 \<noteq> 0" using False by simp
    ultimately show ?thesis using False digits_nonempty [of "n div 10"]
      by (subst digits.simps) (auto simp: hd_append)
  qed
qed

lemma digits_0: "digits 0 = [DIGIT0]"
  by (subst digits.simps) simp

lemma takeWhile_digits:
  assumes "list_all is_digit ds" and "ends_number rest"
  shows "takeWhile is_digit (ds @ rest) = ds" and "dropWhile is_digit (ds @ rest) = rest"
proof -
  have a: "\<forall>x\<in>set ds. is_digit x" using assms(1) by (simp add: list_all_iff)
  have t: "takeWhile is_digit rest = []" and d: "dropWhile is_digit rest = rest"
    using assms(2) by (cases rest; simp add: ends_number_def)+
  show "takeWhile is_digit (ds @ rest) = ds"
    using a t by (simp add: takeWhile_append2)
  show "dropWhile is_digit (ds @ rest) = rest"
    using a d by (simp add: dropWhile_append2)
qed

lemma digits_Cons:
  obtains d ds where "digits m = d # ds" "is_digit d" "list_all is_digit ds" "d = DIGIT0 \<longleftrightarrow> m = 0"
proof -
  obtain d ds where e: "digits m = d # ds"
    using digits_nonempty [of m] by (cases "digits m") auto
  have "list_all is_digit (d # ds)" using digits_all [of m] by (simp add: e)
  moreover have "d = DIGIT0 \<longleftrightarrow> m = 0" using hd_digits [of m] by (simp add: e)
  ultimately show ?thesis using that e by simp
qed

lemma match_int_digits:
  assumes "ends_number rest"
  shows "match_int (digits m @ rest) = Some (digits m, rest)"
proof -
  obtain d ds where e: "digits m = d # ds" "is_digit d" "list_all is_digit ds" "d = DIGIT0 \<longleftrightarrow> m = 0"
    by (rule digits_Cons)
  have nm: "d \<noteq> MINUS" using e(2) by (auto simp: is_digit_def)
  show ?thesis
  proof (cases "m = 0")
    case True
    then show ?thesis by (simp add: digits_0 match_int_def)
  next
    case False
    then have "d \<noteq> DIGIT0" using e(4) by simp
    then show ?thesis
      using nm e(2) takeWhile_digits [OF e(3) assms]
      by (simp add: e(1) match_int_def)
  qed
qed

lemma match_int_minus_digits:
  assumes "ends_number rest" and "m \<noteq> 0"
  shows "match_int (MINUS # digits m @ rest) = Some (MINUS # digits m, rest)"
proof -
  obtain d ds where e: "digits m = d # ds" "is_digit d" "list_all is_digit ds" "d = DIGIT0 \<longleftrightarrow> m = 0"
    by (rule digits_Cons)
  have "d \<noteq> DIGIT0" using e(4) assms(2) by simp
  then show ?thesis
    using e(2) takeWhile_digits [OF e(3) assms(1)]
    by (simp add: e(1) match_int_def)
qed

lemma match_int_int_str:
  assumes "ends_number rest"
  shows "match_int (int_str i @ rest) = Some (int_str i, rest)"
proof (cases "i < 0")
  case True
  then have "nat (- i) \<noteq> 0" by simp
  from match_int_minus_digits [OF assms this] True show ?thesis by (simp add: int_str_def)
next
  case False
  with match_int_digits [OF assms] show ?thesis by (simp add: int_str_def)
qed

lemma match_frac_end: "ends_number rest \<Longrightarrow> match_frac rest = ([], rest)"
  by (cases rest) (simp_all add: match_frac_def ends_number_def)

lemma match_exp_end: "ends_number rest \<Longrightarrow> match_exp rest = ([], rest)"
  by (cases rest) (simp_all add: match_exp_def ends_number_def)

lemma match_number_int_str:
  assumes "ends_number rest"
  shows "match_number (int_str i @ rest) = Some (int_str i, [], [], rest)"
  by (simp add: match_number_def match_int_int_str [OF assms] match_frac_end [OF assms]
      match_exp_end [OF assms])

lemma parse_int_int_str: "parse_int (int_str i) = i"
proof (cases "i < 0")
  case True
  then show ?thesis by (simp add: int_str_def parse_int_def digits_val_digits)
next
  case False
  obtain d ds where e: "digits (nat i) = d # ds" "is_digit d"
    by (rule digits_Cons)
  have "d \<noteq> MINUS" using e(2) by (auto simp: is_digit_def)
  moreover have "digits_val (d # ds) = nat i" using digits_val_digits [of "nat i"] by (simp add: e)
  ultimately show ?thesis using False by (simp add: int_str_def parse_int_def e(1))
qed

lemma int_str_Cons:
  obtains c cs where "int_str i = c # cs" "c = MINUS \<or> is_digit c"
proof (cases "i < 0")
  case True
  then show ?thesis using that by (simp add: int_str_def)
next
  case False
  obtain d ds where e: "digits (nat i) = d # ds" "is_digit d"
    by (rule digits_Cons)
  then show ?thesis using that False by (simp add: int_str_def)
qed

lemma scan_once_int_str:
  assumes "ends_number rest"
  shows "scan_once (Suc n) (int_str i @ rest) = Some (JInt i, rest)"
proof -
  obtain c cs where e: "int_str i = c # cs" "c = MINUS \<or> is_digit c"
    by (rule int_str_Cons)
  have m: "match_number (c # cs @ rest) = Some (c # cs, [], [], rest)"
    using match_number_int_str [OF assms, of i] by (simp add: e)
  have p: "parse_int (c # cs) = i" using parse_int_int_str [of i] by (simp add: e)
  have c: "c \<noteq> QUOTE" "c \<noteq> LBRACE" "c \<noteq> LBRACKET" "c \<noteq> 110" "c \<noteq> 116" "c \<noteq> 102"
    using e(2) by (auto simp: is_digit_def)
  show ?thesis
    unfolding e(1) using c by (simp add: m p)
qed

subsection \<open>Lists, dictionaries and the whole value\<close>

lemma join_Cons: "join sep (x # xs) = x @ concat (map ((@) sep) xs)"
  by (induction xs arbitrary: x) simp_all

lemma join_dumps:
  "join (ascii '', '') (map f (v # vs)) = f v @ concat (map (\<lambda>x. COMMA # SPACE # f x) vs)"
  by (simp add: join_Cons comp_def)

lemma skip_ws_Cons: "\<not> is_ws c \<Longrightarrow> skip_ws (c # cs) = c # cs"
  by (simp add: skip_ws_def)

lemma skip_ws_space: "skip_ws (SPACE # cs) = skip_ws cs"
  by (simp add: skip_ws_def is_ws_def)


lemma dumps_Cons:
  assumes "wf_json v"
  obtains c cs where "dumps py v = c # cs" "\<not> is_ws c" "c \<noteq> RBRACKET"
proof (cases v)
  case (JInt i)
  obtain c cs where "int_str i = c # cs" "c = MINUS \<or> is_digit c" by (rule int_str_Cons)
  then show ?thesis using that JInt by (auto simp: is_ws_def is_digit_def)
next
  case (JFloat lit)
  then show ?thesis using assms by simp
next
  case (JBool b)
  then show ?thesis using that by (cases b) (auto simp: is_ws_def)
qed (use that in \<open>auto simp: is_ws_def encode_basestring_ascii_def\<close>)

lemma ends_number_simps:
  "ends_number (RBRACKET # r)" "ends_number (RBRACE # r)" "ends_number (COMMA # r)"
  "ends_number (NEWLINE # r)" "ends_number []"
  by (simp_all add: ends_number_def is_digit_def)

lemma JSONArray_loop:
  assumes ih: "\<And>x n rest. x \<in> set (v # vs) \<Longrightarrow> length (dumps py x) \<le> n \<Longrightarrow> ends_number rest
                 \<Longrightarrow> scan_once n (dumps py x @ rest) = Some (normal x, rest)"
    and wf: "list_all wf_json (v # vs)"
    and n: "length (dumps py v @ concat (map (\<lambda>x. COMMA # SPACE # dumps py x) vs)) < n"
  shows "JSONArray n vals (dumps py v @ concat (map (\<lambda>x. COMMA # SPACE # dumps py x) vs)
                           @ RBRACKET # rest)
         = Some (JArr (vals @ map normal (v # vs)), rest)"
  using assms
proof (induction vs arbitrary: v vals n)
  case Nil
  then obtain n' where n': "n = Suc n'" "length (dumps py v) \<le> n'" by (cases n) auto
  have "scan_once n' (dumps py v @ RBRACKET # rest) = Some (normal v, RBRACKET # rest)"
    using Nil.prems(1) n'(2) by (simp add: ends_number_simps)
  then show ?case by (simp add: n'(1) skip_ws_Cons is_ws_def)
next
  case (Cons w ws)
  let ?T = "dumps py w @ concat (map (\<lambda>x. COMMA # SPACE # dumps py x) ws) @ RBRACKET # rest"
  obtain n' where n1: "n = Suc n'"
    using Cons.prems(3) by (cases n) auto
  have n2: "length (dumps py v) \<le> n'"
    using Cons.prems(3) unfolding n1 by simp
  have n3: "length (dumps py w @ concat (map (\<lambda>x. COMMA # SPACE # dumps py x) ws)) < n'"
    using Cons.prems(3) unfolding n1 by simp
  note n' = n1 n2 n3
  have s: "scan_once n' (dumps py v @ COMMA # SPACE # ?T) = Some (normal v, COMMA # SPACE # ?T)"
    using Cons.prems(1) n'(2) by (simp add: ends_number_simps)
  obtain c cs where c: "dumps py w = c # cs" "\<not> is_ws c"
    using Cons.prems(2) by (auto elim: dumps_Cons [where v = w and py = py])
  have k: "skip_ws (SPACE # ?T) = ?T"
    by (simp add: skip_ws_space c skip_ws_Cons)
  have "JSONArray n' (vals @ [normal v]) ?T = Some (JArr ((vals @ [normal v]) @ map normal (w # ws)), rest)"
    using Cons.prems(1,2) n'(3) by (intro Cons.IH) auto
  then have "JSONArray n vals (dumps py v @ COMMA # SPACE # ?T) = Some (JArr (vals @ map normal (v # w # ws)), rest)"
    unfolding n'(1) by (simp add: s k skip_ws_Cons is_ws_def)
  then show ?case by simp
qed


lemma dumps_JObj: "dumps py (JObj kvs) = LBRACE # join (ascii '', '') (map (dumps_item py) kvs) @ [RBRACE]"
  by (simp add: dumps_item_def [abs_def])

lemma dumps_item_Cons:
  "dumps_item py kv = QUOTE # concat (map escape_char (fst kv)) @ QUOTE # COLON # SPACE # dumps py (snd kv)"
  by (simp add: dumps_item_def encode_basestring_ascii_def)

lemma JSONObject_loop:
  assumes ih: "\<And>x n rest. x \<in> snd ` set (kv # kvs) \<Longrightarrow> length (dumps py x) \<le> n \<Longrightarrow> ends_number rest
                 \<Longrightarrow> scan_once n (dumps py x @ rest) = Some (normal x, rest)"
    and wf: "list_all (\<lambda>kv. list_all code_point (fst kv) \<and> wf_json (snd kv)) (kv # kvs)"
    and n: "length (dumps_item py kv @ concat (map (\<lambda>x. COMMA # SPACE # dumps_item py x) kvs)) < n"
  shows "JSONObject n pairs (tl (dumps_item py kv) @ concat (map (\<lambda>x. COMMA # SPACE # dumps_item py x) kvs)
                             @ RBRACE # rest)
         = Some (JObj (dict (pairs @ map (\<lambda>kv. (paired (fst kv), normal (snd kv))) (kv # kvs))), rest)"
  using assms
proof (induction kvs arbitrary: kv pairs n)
  case Nil
  obtain n' where n1: "n = Suc n'" using Nil.prems(3) by (cases n) auto
  have n2: "length (dumps py (snd kv)) \<le> n'"
    using Nil.prems(3) unfolding n1 by (simp add: dumps_item_Cons)
  have k: "scanstring (concat (map escape_char (fst kv)) @ QUOTE # COLON # SPACE # dumps py (snd kv) @ RBRACE # rest)
           = Some (paired (fst kv), COLON # SPACE # dumps py (snd kv) @ RBRACE # rest)"
    using Nil.prems(2) by (intro scanstring_escaped) simp
  obtain c cs where c: "dumps py (snd kv) = c # cs" "\<not> is_ws c"
    using Nil.prems(2) by (auto elim: dumps_Cons [where v = "snd kv" and py = py])
  have w: "skip_ws (SPACE # dumps py (snd kv) @ RBRACE # rest) = dumps py (snd kv) @ RBRACE # rest"
    by (simp add: skip_ws_space c skip_ws_Cons)
  have s: "scan_once n' (dumps py (snd kv) @ RBRACE # rest) = Some (normal (snd kv), RBRACE # rest)"
    using Nil.prems(1) n2 by (simp add: ends_number_simps)
  show ?case
    unfolding n1 by (simp add: dumps_item_Cons k w s skip_ws_Cons is_ws_def)
next
  case (Cons kw kws)
  let ?T = "concat (map (\<lambda>x. COMMA # SPACE # dumps_item py x) kws) @ RBRACE # rest"
  let ?R = "COMMA # SPACE # QUOTE # tl (dumps_item py kw) @ ?T"
  obtain n' where n1: "n = Suc n'" using Cons.prems(3) by (cases n) auto
  have n2: "length (dumps py (snd kv)) \<le> n'"
    using Cons.prems(3) unfolding n1 by (simp add: dumps_item_Cons)
  have n3: "length (dumps_item py kw @ concat (map (\<lambda>x. COMMA # SPACE # dumps_item py x) kws)) < n'"
    using Cons.prems(3) unfolding n1 by simp
  have k: "scanstring (concat (map escape_char (fst kv)) @ QUOTE # COLON # SPACE # dumps py (snd kv) @ ?R)
           = Some (paired (fst kv), COLON # SPACE # dumps py (snd kv) @ ?R)"
    using Cons.prems(2) by (intro scanstring_escaped) simp
  obtain c cs where c: "dumps py (snd kv) = c # cs" "\<not> is_ws c"
    using Cons.prems(2) by (auto elim: dumps_Cons [where v = "snd kv" and py = py])
  have w: "skip_ws (SPACE # dumps py (snd kv) @ ?R) = dumps py (snd kv) @ ?R"
    by (simp add: skip_ws_space c skip_ws_Cons)
  have s: "scan_once n' (dumps py (snd kv) @ ?R) = Some (normal (snd kv), ?R)"
    using Cons.prems(1) n2 by (simp add: ends_number_simps)
  have w2: "skip_ws (SPACE # QUOTE # tl (dumps_item py kw) @ ?T) = QUOTE # tl (dumps_item py kw) @ ?T"
    by (simp add: skip_ws_space skip_ws_Cons is_ws_def)
  have ih: "JSONObject n' (pairs @ [(paired (fst kv), normal (snd kv))]) (tl (dumps_item py kw) @ ?T)
            = Some (JObj (dict ((pairs @ [(paired (fst kv), normal (snd kv))])
                                @ map (\<lambda>kv. (paired (fst kv), normal (snd kv))) (kw # kws))), rest)"
    using Cons.prems(1,2) n3 by (intro Cons.IH) auto
  have q: "dumps_item py kw = QUOTE # tl (dumps_item py kw)" by (simp add: dumps_item_Cons)
  have main: "JSONObject n pairs (tl (dumps_item py kv) @ ?R)
        = Some (JObj (dict (pairs @ map (\<lambda>kv. (paired (fst kv), normal (snd kv))) (kv # kw # kws))), rest)"
    unfolding n1 using ih by (simp add: dumps_item_Cons [of py kv] k w s w2 skip_ws_Cons is_ws_def)
  have eq: "concat (map (\<lambda>x. COMMA # SPACE # dumps_item py x) (kw # kws)) @ RBRACE # rest = ?R"
    by (simp, subst q, simp)
  show ?case unfolding eq by (rule main)
qed


lemma dict_Nil: "dict [] = []"
  by (simp add: dict_def)

lemma scan_once_dumps:
  assumes "wf_json v" and "length (dumps py v) \<le> n" and "ends_number rest"
  shows "scan_once n (dumps py v @ rest) = Some (normal v, rest)"
  using assms
proof (induction v arbitrary: n rest)
  case JNull
  then obtain n' where "n = Suc n'" by (cases n) auto
  then show ?case by simp
next
  case (JBool b)
  then obtain n' where "n = Suc n'" by (cases n) (auto split: if_splits)
  then show ?case by (cases b) simp_all
next
  case (JInt i)
  obtain c cs where "int_str i = c # cs" by (rule int_str_Cons)
  with JInt obtain n' where "n = Suc n'" by (cases n) auto
  with JInt show ?case by (simp add: scan_once_int_str)
next
  case (JFloat lit)
  then show ?case by simp
next
  case (JStr s)
  then obtain n' where n: "n = Suc n'" by (cases n) (auto simp: encode_basestring_ascii_def)
  have "scanstring (concat (map escape_char s) @ QUOTE # rest) = Some (paired s, rest)"
    using JStr by (intro scanstring_escaped) simp
  then show ?case by (simp add: n encode_basestring_ascii_def)
next
  case (JArr vs)
  obtain n' where n: "n = Suc n'" using JArr.prems(2) by (cases n) auto
  show ?case
  proof (cases vs)
    case Nil
    then show ?thesis by (simp add: n skip_ws_Cons is_ws_def)
  next
    case (Cons v0 vs')
    let ?T = "dumps py v0 @ concat (map (\<lambda>x. COMMA # SPACE # dumps py x) vs')"
    have d: "dumps py (JArr vs) = LBRACKET # ?T @ [RBRACKET]"
      unfolding Cons dumps.simps join_dumps ..
    have l: "length ?T < n'"
      using JArr.prems(2) unfolding d n by simp
    have ih: "\<And>x n rest. x \<in> set (v0 # vs') \<Longrightarrow> length (dumps py x) \<le> n \<Longrightarrow> ends_number rest
                \<Longrightarrow> scan_once n (dumps py x @ rest) = Some (normal x, rest)"
      using JArr.IH JArr.prems(1) unfolding Cons by (auto simp: list_all_iff)
    have wf: "list_all wf_json (v0 # vs')" using JArr.prems(1) unfolding Cons by simp
    have loop: "JSONArray n' [] (?T @ RBRACKET # rest) = Some (JArr ([] @ map normal (v0 # vs')), rest)"
      using JSONArray_loop [OF ih wf l, of "[]" rest] by simp
    obtain c cs where c: "dumps py v0 = c # cs" "\<not> is_ws c" "c \<noteq> RBRACKET"
      using wf by (auto elim: dumps_Cons [where v = v0 and py = py])
    have k: "skip_ws (?T @ RBRACKET # rest) = c # cs @ concat (map (\<lambda>x. COMMA # SPACE # dumps py x) vs') @ RBRACKET # rest"
      using c by (simp add: skip_ws_Cons)
    have "scan_once n (dumps py (JArr vs) @ rest) = Some (JArr (map normal (v0 # vs')), rest)"
      unfolding d n using loop c by (simp add: skip_ws_Cons)
    then show ?thesis by (simp add: Cons)
  qed
next
  case (JObj kvs)
  obtain n' where n: "n = Suc n'" using JObj.prems(2) by (cases n) auto
  show ?case
  proof (cases kvs)
    case Nil
    then show ?thesis by (simp add: n skip_ws_Cons is_ws_def dict_Nil)
  next
    case (Cons kv kvs')
    let ?T = "dumps_item py kv @ concat (map (\<lambda>x. COMMA # SPACE # dumps_item py x) kvs')"
    have d: "dumps py (JObj kvs) = LBRACE # ?T @ [RBRACE]"
      unfolding Cons dumps_JObj join_dumps ..
    have l: "length ?T < n'"
      using JObj.prems(2) unfolding d n by simp
    have ih: "\<And>x n rest. x \<in> snd ` set (kv # kvs') \<Longrightarrow> length (dumps py x) \<le> n \<Longrightarrow> ends_number rest
                \<Longrightarrow> scan_once n (dumps py x @ rest) = Some (normal x, rest)"
    proof -
      fix x n rest
      assume x: "x \<in> snd ` set (kv # kvs')" and ln: "length (dumps py x) \<le> n" and e: "ends_number rest"
      from x have "\<exists>p. p \<in> set kvs \<and> x = snd p" unfolding Cons by blast
      then obtain p where p: "p \<in> set kvs" "x = snd p" by blast
      have "x \<in> Basic_BNFs.snds p" unfolding p(2) by (cases p) simp
      moreover have "wf_json x" using JObj.prems(1) p by (simp add: list_all_iff)
      ultimately show "scan_once n (dumps py x @ rest) = Some (normal x, rest)"
        using JObj.IH [OF p(1) _ _ ln e] by blast
    qed
    have wf: "list_all (\<lambda>kv. list_all code_point (fst kv) \<and> wf_json (snd kv)) (kv # kvs')"
      using JObj.prems(1) unfolding Cons by simp
    have loop: "JSONObject n' [] (tl (dumps_item py kv) @ concat (map (\<lambda>x. COMMA # SPACE # dumps_item py x) kvs') @ RBRACE # rest)
                = Some (JObj (dict ([] @ map (\<lambda>kv. (paired (fst kv), normal (snd kv))) (kv # kvs'))), rest)"
      by (rule JSONObject_loop [OF ih wf l])
    have q: "?T @ RBRACE # rest = QUOTE # tl (dumps_item py kv) @ concat (map (\<lambda>x. COMMA # SPACE # dumps_item py x) kvs') @ RBRACE # rest"
      by (simp add: dumps_item_Cons)
    have "scan_once (Suc n') (LBRACE # ?T @ RBRACE # rest)
          = Some (JObj (dict (map (\<lambda>kv. (paired (fst kv), normal (snd kv))) (kv # kvs'))), rest)"
      unfolding q using loop by (simp add: skip_ws_Cons is_ws_def)
    then have "scan_once n (dumps py (JObj kvs) @ rest)
          = Some (JObj (dict (map (\<lambda>kv. (paired (fst kv), normal (snd kv))) (kv # kvs'))), rest)"
      unfolding d n by simp
    then show ?thesis by (simp add: Cons)
  qed
qed

subsection \<open>The text of a value: ASCII, one line, and read back by \<open>loads\<close>\<close>

lemma hexdigit_ascii: "d < 16 \<Longrightarrow> hexdigit d < 128 \<and> hexdigit d \<noteq> NEWLINE"
  by (simp add: hexdigit_def)

lemma u_escape_ascii: "\<forall>c\<in>set (u_escape n). c < 128 \<and> c \<noteq> NEWLINE"
  using hexdigit_ascii [of "n div 4096 mod 16"] hexdigit_ascii [of "n div 256 mod 16"]
    hexdigit_ascii [of "n div 16 mod 16"] hexdigit_ascii [of "n mod 16"]
  by (simp add: u_escape_def)

lemma escape_char_ascii: "\<forall>c\<in>set (escape_char a). c < 128 \<and> c \<noteq> NEWLINE"
  using u_escape_ascii by (auto simp: escape_char_def)

lemma encode_basestring_ascii_ascii: "\<forall>c\<in>set (encode_basestring_ascii s). c < 128 \<and> c \<noteq> NEWLINE"
  using escape_char_ascii by (auto simp: encode_basestring_ascii_def)

lemma int_str_ascii: "\<forall>c\<in>set (int_str i). c < 128 \<and> c \<noteq> NEWLINE"
proof -
  have "\<forall>c\<in>set (digits m). c < 128 \<and> c \<noteq> NEWLINE" for m
    using digits_all [of m] by (auto simp: list_all_iff is_digit_def)
  then show ?thesis by (auto simp: int_str_def)
qed

lemma join_set: "set (join sep xs) \<subseteq> set sep \<union> \<Union> (set ` set xs)"
  by (induction sep xs rule: join.induct) auto

lemma dumps_ascii:
  assumes "wf_json v"
  shows "\<forall>c\<in>set (dumps py v). c < 128 \<and> c \<noteq> NEWLINE"
  using assms
proof (induction v)
  case (JArr vs)
  have "\<forall>c \<in> \<Union> (set ` set (map (dumps py) vs)). c < 128 \<and> c \<noteq> NEWLINE"
    using JArr by (auto simp: list_all_iff)
  moreover have "\<forall>c\<in>set (ascii '', ''). c < 128 \<and> c \<noteq> NEWLINE" by simp
  ultimately have "\<forall>c\<in>set (join (ascii '', '') (map (dumps py) vs)). c < 128 \<and> c \<noteq> NEWLINE"
    using join_set [of "ascii '', ''" "map (dumps py) vs"] by blast
  then show ?case by simp
next
  case (JObj kvs)
  have "\<forall>c \<in> set (dumps_item py kv). c < 128 \<and> c \<noteq> NEWLINE" if "kv \<in> set kvs" for kv
  proof -
    have "snd kv \<in> Basic_BNFs.snds kv" by (cases kv) simp
    moreover have "wf_json (snd kv)" using JObj.prems that by (simp add: list_all_iff)
    ultimately have "\<forall>c\<in>set (dumps py (snd kv)). c < 128 \<and> c \<noteq> NEWLINE"
      using JObj.IH that by blast
    then show ?thesis
      using encode_basestring_ascii_ascii [of "fst kv"] by (auto simp: dumps_item_def)
  qed
  then have "\<forall>c \<in> \<Union> (set ` set (map (dumps_item py) kvs)). c < 128 \<and> c \<noteq> NEWLINE"
    by auto
  moreover have "\<forall>c\<in>set (ascii '', ''). c < 128 \<and> c \<noteq> NEWLINE" by simp
  ultimately have "\<forall>c\<in>set (join (ascii '', '') (map (dumps_item py) kvs)). c < 128 \<and> c \<noteq> NEWLINE"
    using join_set [of "ascii '', ''" "map (dumps_item py) kvs"] by blast
  then show ?case unfolding dumps_JObj by simp
qed (use int_str_ascii encode_basestring_ascii_ascii in \<open>auto\<close>)

lemma utf8_encode_ascii: "\<forall>c\<in>set s. c < 128 \<Longrightarrow> utf8_encode s = Some s"
  by (induction s) (simp_all add: utf8_encode1_def)



lemma encode_ascii: "\<forall>c\<in>set s. c < 128 \<Longrightarrow> encode s = Inr (map char_of s)"
  by (simp add: encode_def utf8_encode_ascii)







lemma loads_two_documents:
  assumes "wf_json v1" and "wf_json v2"
  shows "loads (dumps py v1 @ NEWLINE # dumps py v2) = Inl JSONDecodeError"
proof -
  let ?s = "dumps py v1 @ NEWLINE # dumps py v2"
  obtain c cs where c: "dumps py v1 = c # cs" "\<not> is_ws c" using assms(1) by (auto elim: dumps_Cons [where v = v1 and py = py])
  obtain d ds where d: "dumps py v2 = d # ds" "\<not> is_ws d" using assms(2) by (auto elim: dumps_Cons [where v = v2 and py = py])
  have k: "skip_ws ?s = ?s" using c by (simp add: skip_ws_Cons)
  have "scan_once (2 * length ?s + 2) ?s = Some (normal v1, NEWLINE # dumps py v2)"
    using assms(1) by (intro scan_once_dumps) (simp_all add: ends_number_simps)
  moreover have "skip_ws (NEWLINE # dumps py v2) \<noteq> []"
    using d by (simp add: skip_ws_def is_ws_def)
  ultimately show ?thesis by (simp add: loads_def k)
qed

lemma paired_scalar: "list_all scalar s \<Longrightarrow> paired s = s"
  by (induction s rule: paired.induct) (auto simp: scalar_def is_high_def)

lemma update_fresh: "k \<notin> fst ` set al \<Longrightarrow> AList.update k v al = al @ [(k, v)]"
  by (induction al) auto

lemma foldl_update_distinct:
  "distinct (map fst (acc @ kvs))
   \<Longrightarrow> foldl (\<lambda>d (k, v). AList.update k v d) acc kvs = acc @ kvs"
proof (induction kvs arbitrary: acc)
  case Nil
  then show ?case by simp
next
  case (Cons kv kvs)
  obtain k v where kv: "kv = (k, v)" by (cases kv)
  have "k \<notin> fst ` set acc" using Cons.prems by (auto simp: kv)
  then have u: "AList.update k v acc = acc @ [(k, v)]" by (rule update_fresh)
  have "distinct (map fst ((acc @ [(k, v)]) @ kvs))" using Cons.prems by (simp add: kv)
  then have "foldl (\<lambda>d (k, v). AList.update k v d) (acc @ [(k, v)]) kvs = (acc @ [(k, v)]) @ kvs"
    by (rule Cons.IH)
  then show ?case by (simp add: kv u)
qed

lemma dict_distinct: "distinct (map fst kvs) \<Longrightarrow> dict kvs = kvs"
  using foldl_update_distinct [of "[]" kvs] by (simp add: dict_def)

lemma scalar_code_point: "scalar c \<Longrightarrow> code_point c"
  by (simp add: scalar_def code_point_def)

lemma json_value_normal:
  assumes "json_value v"
  shows "wf_json v \<and> normal v = v"
  using assms
proof (induction v)
  case (JStr s)
  then show ?case by (auto simp: paired_scalar list_all_iff scalar_code_point)
next
  case (JArr vs)
  then show ?case by (auto simp: list_all_iff intro: map_idI)
next
  case (JObj kvs)
  have each: "list_all code_point (fst kv) \<and> wf_json (snd kv)
              \<and> (paired (fst kv), normal (snd kv)) = kv" if "kv \<in> set kvs" for kv
  proof -
    have "snd kv \<in> Basic_BNFs.snds kv" by (cases kv) simp
    moreover have "json_value (snd kv)" "list_all scalar (fst kv)"
      using JObj.prems that by (simp_all add: list_all_iff)
    ultimately show ?thesis
      using JObj.IH that by (cases kv) (auto simp: paired_scalar list_all_iff scalar_code_point)
  qed
  then have "map (\<lambda>kv. (paired (fst kv), normal (snd kv))) kvs = kvs"
    by (intro map_idI) simp
  moreover have "distinct (map fst kvs)" using JObj.prems by simp
  ultimately show ?case using each by (simp add: dict_distinct list_all_iff)
qed simp_all

section \<open>Properties of \<open>call_daemon\<close>\<close>

subsection \<open>The read loop\<close>

lemma recv_loop_Data:
  "recv_loop (Data chunk ## s) response =
     (if chunk = [] then Some (Inr response)
      else if CHR 0x0A \<in> set (response @ chunk) then Some (Inr (response @ chunk))
      else recv_loop s (response @ chunk))"
  by (subst recv_loop.simps) simp

lemma recv_loop_Fault: "recv_loop (Fault ## s) response = Some (Inl OSError)"
  by (subst recv_loop.simps) simp

lemma recv_loop_until_newline:
  assumes "[] \<notin> set chunks" and "chunks \<noteq> []"
    and "CHR 0x0A \<notin> set response" and "CHR 0x0A \<notin> set (concat (butlast chunks))"
    and "CHR 0x0A \<in> set (last chunks)"
  shows "recv_loop (map Data chunks @- rest) response = Some (Inr (response @ concat chunks))"
  using assms
proof (induction chunks arbitrary: response)
  case Nil
  then show ?case by simp
next
  case (Cons c cs)
  show ?case
  proof (cases "cs = []")
    case True
    with Cons.prems show ?thesis by (simp add: recv_loop_Data)
  next
    case False
    with Cons.prems have "recv_loop (map Data cs @- rest) (response @ c)
                          = Some (Inr ((response @ c) @ concat cs))"
      by (intro Cons.IH) auto
    moreover have "c \<noteq> []" using Cons.prems by auto
    ultimately show ?thesis using Cons.prems False by (simp add: recv_loop_Data)
  qed
qed


lemma call_daemon_events:
  assumes "call_daemon py ep method params = Some (res, evs)"
  shows "evs = [Socket, Connect, Close] \<or> (\<exists>d. evs = [Socket, Connect, Sendall d, Close])"
  using assms unfolding call_daemon_def with_body_def
  by (auto split: option.splits sum.splits if_splits prod.splits)

lemma recv_loop_closed: "recv_loop closed response = Some (Inr response)"
  by (subst recv_loop.simps) (simp add: closed_def)

lemma closed_unfold: "closed = Data [] ## closed"
  unfolding closed_def by (subst siterate.ctr) simp

lemma call_daemon_received:
  assumes "connects ep" and "sends ep"
    and "payload py (request (urandom ep) method params) = Inr data"
    and "recv_loop (recvs ep) [] = Some (Inr response)"
  shows "call_daemon py ep method params
         = Some (parse_response response, [Socket, Connect, Sendall data, Close])"
  using assms by (simp add: call_daemon_def with_body_def)

lemma chunks_of_line:
  assumes "concat chunks = line @ [x]" and "[] \<notin> set chunks" and "x \<notin> set line"
  shows "chunks \<noteq> [] \<and> x \<notin> set (concat (butlast chunks)) \<and> x \<in> set (last chunks)"
proof -
  have ne: "chunks \<noteq> []" using assms(1) by auto
  then have c: "chunks = butlast chunks @ [last chunks]" by simp
  have "last chunks \<noteq> []" using ne assms(2) last_in_set [OF ne] by metis
  then obtain ys y where l: "last chunks = ys @ [y]" by (cases "last chunks" rule: rev_cases) auto
  have "concat chunks = concat (butlast chunks) @ last chunks"
    by (subst c) simp
  then have "(concat (butlast chunks) @ ys) @ [y] = line @ [x]"
    using assms(1) l by simp
  then have "concat (butlast chunks) @ ys = line" "y = x" by simp_all
  then show ?thesis using ne l assms(3) by auto
qed

section \<open>Properties of the presentation routines\<close>

subsection \<open>Statements and standard output\<close>

lemma and_then_ok [simp]: "and_then (ok x) f = f x"
  by (rule ext) (simp add: and_then_def ok_def)

lemma and_then_raise [simp]: "and_then (raise e) f = raise e"
  by (rule ext) (simp add: and_then_def raise_def)

lemma attempt_simps [simp]: "attempt (Inr x) = ok x" "attempt (Inl e) = raise e"
  by (simp_all add: attempt_def)

lemma utf8_encode_encodable: "encodable s \<Longrightarrow> \<exists>b. utf8_encode s = Some b"
  by (induction s) (auto simp: encodable_def utf8_encode1_def)

lemma print_encodable: "encodable s \<Longrightarrow> print s out = (Inr (), out @ [s])"
  using utf8_encode_encodable [of s] by (auto simp: print_def encode_def)

lemma encodable_append [simp]: "encodable (s @ t) \<longleftrightarrow> encodable s \<and> encodable t"
  by (simp add: encodable_def)

lemma encodable_Nil [simp]: "encodable []"
  by (simp add: encodable_def)

lemma encodable_Cons [simp]:
  "encodable (c # s) \<longleftrightarrow> \<not> (55296 \<le> c \<and> c \<le> 57343) \<and> encodable s"
  by (simp add: encodable_def)

lemma encodable_rule40: "encodable rule40"
  by (simp add: rule40_def encodable_def list_all_iff)

lemma extends_ok: "extends (ok x)"
  by (simp add: extends_def ok_def)

lemma extends_raise: "extends (raise e)"
  by (simp add: extends_def raise_def)

lemma extends_attempt: "extends (attempt r)"
  by (cases r) (simp_all add: extends_ok extends_raise)

lemma extends_print: "extends (print s)"
  by (auto simp: extends_def print_def split: sum.splits)

lemma extends_if: "extends m \<Longrightarrow> extends n \<Longrightarrow> extends (if b then m else n)"
  by simp

lemma extends_and_then:
  assumes "extends m" and "\<And>x. extends (f x)"
  shows "extends (and_then m f)"
  unfolding extends_def
proof
  fix out
  obtain r out' where m: "m out = (r, out')" by (cases "m out")
  obtain t where t: "out' = out @ t" using assms(1) m by (auto simp: extends_def dest: spec [of _ out])
  show "\<exists>tail. snd (and_then m f out) = out @ tail"
  proof (cases r)
    case (Inl e)
    then show ?thesis by (simp add: and_then_def m t)
  next
    case (Inr x)
    obtain t' where "snd (f x out') = out' @ t'"
      using assms(2) [of x] by (auto simp: extends_def)
    then show ?thesis by (simp add: and_then_def m Inr t)
  qed
qed

lemmas extends_intros =
  extends_and_then extends_print extends_attempt extends_ok extends_raise extends_if

lemma extends_for_each:
  assumes "\<And>x. extends (body x)"
  shows "extends (for_each body xs)"
  unfolding extends_def
proof
  fix out
  show "\<exists>tail. snd (for_each body xs out) = out @ tail"
  proof (induction xs arbitrary: out)
    case Nil
    show ?case by simp
  next
    case (Cons x xs)
    obtain r out' where b: "body x out = (r, out')" by (cases "body x out")
    obtain t where t: "out' = out @ t"
      using assms [of x] b by (auto simp: extends_def dest: spec [of _ out])
    show ?case
    proof (cases r)
      case (Inl e)
      then show ?thesis by (simp add: b t)
    next
      case (Inr u)
      obtain t' where "snd (for_each body xs out') = out' @ t'" using Cons [of out'] by blast
      then show ?thesis by (simp add: b Inr t)
    qed
  qed
qed

lemma extends_show_deployment: "extends (show_deployment py deploy)"
  unfolding show_deployment_def by (intro extends_intros)

lemma extends_show_project: "extends (show_project py project)"
  unfolding show_project_def by (intro extends_intros)

lemma and_then_print_first:
  assumes "encodable line" and "\<And>u. extends (k u)"
  shows "\<exists>r tail. and_then (print line) k out = (r, out @ line # tail)"
proof -
  obtain r out' where k: "k () (out @ [line]) = (r, out')" by (cases "k () (out @ [line])")
  obtain t where "out' = (out @ [line]) @ t"
    using assms(2) [of "()"] k by (auto simp: extends_def dest: spec [of _ "out @ [line]"])
  then show ?thesis
    by (simp add: and_then_def print_encodable [OF assms(1)] k)
qed

lemma show_deployment_marker_line:
  assumes "state_icon (state_of kvs) = Inr icon"
    and "encodable (str_of py (url_of kvs))" and "encodable icon"
  shows "\<exists>r tail. show_deployment py (JObj kvs) out
           = (r, out @ (ascii ''  '' @ icon @ ascii '' '' @ str_of py (url_of kvs)) # tail)"
proof -
  have s: "dict_get (JObj kvs) (ascii ''state'') (JStr (ascii ''unknown'')) = Inr (state_of kvs)"
    by (simp add: dict_get_def state_of_def split: option.splits)
  have u: "dict_get (JObj kvs) (ascii ''url'') (JStr (ascii ''no-url'')) = Inr (url_of kvs)"
    by (simp add: dict_get_def url_of_def split: option.splits)
  have e: "encodable (ascii ''  '' @ icon @ ascii '' '' @ str_of py (url_of kvs))"
    using assms(2,3) by simp
  show ?thesis
    unfolding show_deployment_def s u assms(1) attempt_simps and_then_ok
    by (rule and_then_print_first [OF e]) (intro extends_intros)
qed

lemma for_each_until:
  assumes "i < length items"
    and "for_each body (take i items) out0 = (Inr (), out_i)"
    and "body (items ! i) out_i = (r1, out_i @ line # t1)"
    and "\<And>x. extends (body x)"
  shows "\<exists>r tail. for_each body items out0 = (r, out_i @ line # tail)"
  using assms(1,2,3)
proof (induction items arbitrary: i out0)
  case Nil
  then show ?case by simp
next
  case (Cons x xs)
  show ?case
  proof (cases i)
    case 0
    then have o: "out_i = out0" using Cons.prems(2) by simp
    have b: "body x out0 = (r1, out0 @ line # t1)" using Cons.prems(3) 0 o by simp
    show ?thesis
    proof (cases r1)
      case (Inl e)
      then show ?thesis by (simp add: b o)
    next
      case (Inr u)
      obtain r' o' where f: "for_each body xs (out0 @ line # t1) = (r', o')"
        by (cases "for_each body xs (out0 @ line # t1)")
      obtain t where "o' = (out0 @ line # t1) @ t"
        using extends_for_each [of body xs, OF assms(4)] f
        by (auto simp: extends_def dest: spec [of _ "out0 @ line # t1"])
      then show ?thesis by (simp add: b Inr f o)
    qed
  next
    case (Suc j)
    obtain r' o' where b: "body x out0 = (r', o')" by (cases "body x out0")
    have r': "r' = Inr ()" and f: "for_each body (take j xs) o' = (Inr (), out_i)"
      using Cons.prems(2) by (auto simp: Suc b split: sum.splits)
    have "j < length xs" using Cons.prems(1) Suc by simp
    moreover have "body (xs ! j) out_i = (r1, out_i @ line # t1)" using Cons.prems(3) Suc by simp
    ultimately have "\<exists>r tail. for_each body xs o' = (r, out_i @ line # tail)"
      using f by (intro Cons.IH)
    then show ?thesis by (simp add: b r')
  qed
qed


lemma hex32_ascii: "\<forall>c\<in>set (hex32 w). c < 128"
  using hexdigit_lt by (auto simp: hex32_def)

lemma uuid_str_ascii: "\<forall>c\<in>set (uuid_str w). c < 128"
proof -
  have "set (uuid_str w) \<subseteq> set (hex32 w) \<union> {MINUS}"
    unfolding uuid_str_def Let_def
    by (auto dest: in_set_takeD in_set_dropD)
  then show ?thesis using hex32_ascii [of w] by auto
qed

lemma wf_request:
  assumes "list_all code_point method"
    and "case params of None \<Rightarrow> True | Some p \<Rightarrow> wf_json (JObj p)"
  shows "wf_json (request r method params)"
proof -
  have "list_all code_point (uuid_str (uuid4 r))"
    using uuid_str_ascii [of "uuid4 r"] by (auto simp: list_all_iff code_point_def)
  then show ?thesis
    using assms by (auto simp: request_def code_point_def split: option.splits)
qed

lemma payload_wf:
  assumes "wf_json req"
  shows "payload py req = Inr (map char_of (dumps py req @ [NEWLINE]))"
proof -
  have "\<forall>c\<in>set (dumps py req @ [NEWLINE]). c < 128"
    using dumps_ascii [OF assms, of py] by auto
  then show ?thesis unfolding payload_def by (rule encode_ascii)
qed

lemma call_daemon_answering:
  assumes "list_all code_point method"
    and "case params of None \<Rightarrow> True | Some p \<Rightarrow> wf_json (JObj p)"
    and "CHR 0x0A \<in> set line"
  shows "map_option fst (call_daemon py (answering line) method params)
         = Some (parse_response line)"
proof -
  have ne: "line \<noteq> []" using assms(3) by auto
  have p: "payload py (request (urandom (answering line)) method params)
           = Inr (map char_of (dumps py (request (urandom (answering line)) method params)
                               @ [NEWLINE]))"
    by (rule payload_wf [OF wf_request [OF assms(1,2)]])
  have r: "recv_loop (recvs (answering line)) [] = Some (Inr line)"
    using ne assms(3) by (simp add: answering_def recv_loop_Data)
  have "connects (answering line)" "sends (answering line)" by (simp_all add: answering_def)
  from call_daemon_received [OF this p r] show ?thesis by simp
qed

lemma parse_two_deployments:
  "parse_response two_deployments
   = Inr (JObj [(ascii ''ok'', JBool True),
                (ascii ''result'',
                 JObj [(ascii ''deployments'',
                        JArr [JObj [(ascii ''state'', JStr (ascii ''CANCELED''))],
                              JObj [(ascii ''state'', JStr (ascii ''READY'')),
                                    (ascii ''url'', JStr (ascii ''a.app''))]])])])"
  by code_simp


lemma header_printed:
  assumes "encodable header"
  shows "and_then (print header) (\<lambda>u. print rule40) [] = (Inr (), [header, rule40])"
  by (simp add: and_then_def print_encodable [OF assms] print_encodable [OF encodable_rule40])

lemma list_deployments_shows:
  assumes "encodable (deployments_header project_name)"
    and "map_option fst (call_daemon py ep (ascii ''vercel.deployments'')
                           (Some (deployments_params project_name limit))) = Some (Inr result)"
  shows "map_option (\<lambda>(r, out, evs). (r, out)) (list_deployments py ep project_name limit)
         = Some (show_deployments py result [deployments_header project_name, rule40])"
  using assms(2)
  by (auto simp: list_deployments_def header_printed [OF assms(1)] split: option.splits prod.splits)

lemma show_deployments_items:
  assumes "map_of resp (ascii ''ok'') = Some flag" and "truthy py flag"
    and "map_of resp (ascii ''result'') = Some (JObj res)"
    and "map_of res (ascii ''deployments'') = Some (JArr items)" and "items \<noteq> []"
  shows "show_deployments py (JObj resp) = for_each (show_deployment py) items"
  using assms
  by (simp add: show_deployments_def dict_get_def getitem_def iterate_def truthy_def)

lemma list_deployments_marker_line:
  assumes "encodable (deployments_header project_name)"
    and "map_option fst (call_daemon py ep (ascii ''vercel.deployments'')
                           (Some (deployments_params project_name limit))) = Some (Inr (JObj resp))"
    and "map_of resp (ascii ''ok'') = Some flag" and "truthy py flag"
    and "map_of resp (ascii ''result'') = Some (JObj res)"
    and "map_of res (ascii ''deployments'') = Some (JArr items)"
    and "i < length items" and "items ! i = JObj kvs"
    and "for_each (show_deployment py) (take i items) [deployments_header project_name, rule40]
         = (Inr (), out_i)"
    and "state_icon (state_of kvs) = Inr icon" and "encodable icon"
    and "encodable (str_of py (url_of kvs))"
  shows "\<exists>r tail. map_option (\<lambda>(r, out, evs). (r, out)) (list_deployments py ep project_name limit)
           = Some (r, out_i @ (ascii ''  '' @ icon @ ascii '' '' @ str_of py (url_of kvs)) # tail)"
proof -
  let ?line = "ascii ''  '' @ icon @ ascii '' '' @ str_of py (url_of kvs)"
  have ne: "items \<noteq> []" using assms(7) by auto
  obtain r1 t1 where b: "show_deployment py (items ! i) out_i = (r1, out_i @ ?line # t1)"
    using show_deployment_marker_line [OF assms(10,12,11), of out_i] assms(8) by auto
  obtain r tail where
    "for_each (show_deployment py) items [deployments_header project_name, rule40]
     = (r, out_i @ ?line # tail)"
    using for_each_until [OF assms(7,9) b extends_show_deployment] by blast
  then show ?thesis
    unfolding list_deployments_shows [OF assms(1,2)]
      show_deployments_items [OF assms(3,4,5,6) ne]
    by simp
qed

text \<open>
  C7. When \<open>list_deployments\<close> reaches a deployment record whose state is the string
  \<open>s\<close>, the marker it chooses is the one the lookup table gives for \<open>s\<close> when \<open>s\<close> is
  a key of the table and the default marker otherwise, and the line with that marker
  and the record's URL is what it prints next (if the URL can be encoded for standard
  output); the table gives the green circle for \<open>READY\<close>.
\<close>

theorem deployment_marker_from_table:
  assumes "encodable (deployments_header project_name)"
    and "map_option fst (call_daemon py ep (ascii ''vercel.deployments'')
                           (Some (deployments_params project_name limit))) = Some (Inr (JObj resp))"
    and "map_of resp (ascii ''ok'') = Some flag" and "truthy py flag"
    and "map_of resp (ascii ''result'') = Some (JObj res)"
    and "map_of res (ascii ''deployments'') = Some (JArr items)"
    and "i < length items" and "items ! i = JObj kvs"
    and "for_each (show_deployment py) (take i items) [deployments_header project_name, rule40]
         = (Inr (), out_i)"
    and "state_of kvs = JStr s"
    and "encodable (str_of py (url_of kvs))"
  shows "state_icon (state_of kvs)
           = Inr (case map_of state_icons s of Some icon \<Rightarrow> icon | None \<Rightarrow> default_icon)
         \<and> (\<exists>r tail. map_option (\<lambda>(r, out, evs). (r, out))
                         (list_deployments py ep project_name limit)
                = Some (r, out_i @ (ascii ''  ''
                                    @ (case map_of state_icons s of Some icon \<Rightarrow> icon
                                       | None \<Rightarrow> default_icon)
                                    @ ascii '' '' @ str_of py (url_of kvs)) # tail))
         \<and> map_of state_icons (ascii ''READY'') = Some [128994]"
proof -
  let ?icon = "case map_of state_icons s of Some icon \<Rightarrow> icon | None \<Rightarrow> default_icon"
  have a: "state_icon (state_of kvs) = Inr ?icon"
    using assms(10) by (simp add: state_icon_def split: option.splits)
  have e: "encodable ?icon"
  proof (cases "map_of state_icons s")
    case None
    then show ?thesis by (simp add: default_icon_def)
  next
    case (Some x)
    then have "(s, x) \<in> set state_icons" by (rule map_of_SomeD)
    then show ?thesis using Some by (auto simp: state_icons_def)
  qed
  from list_deployments_marker_line [OF assms(1-9) a e assms(11)] a
  show ?thesis by (simp add: state_icons_def)
qed

lemma two_deployments_newline: "CHR 0x0A \<in> set two_deployments"
  by (simp add: two_deployments_def)

lemma call_two_deployments:
  "map_option fst (call_daemon py (answering two_deployments) (ascii ''vercel.deployments'')
                     (Some (deployments_params None 5)))
   = Some (Inr (JObj [(ascii ''ok'', JBool True),
                (ascii ''result'',
                 JObj [(ascii ''deployments'',
                        JArr [JObj [(ascii ''state'', JStr (ascii ''CANCELED''))],
                              JObj [(ascii ''state'', JStr (ascii ''READY'')),
                                    (ascii ''url'', JStr (ascii ''a.app''))]])])]))"
proof -
  have m: "list_all code_point (ascii ''vercel.deployments'')"
    by (simp add: code_point_def)
  have p: "case Some (deployments_params None 5) of None \<Rightarrow> True | Some p \<Rightarrow> wf_json (JObj p)"
    by (simp add: deployments_params_def given_def code_point_def)
  show ?thesis
    unfolding call_daemon_answering [OF m p two_deployments_newline] parse_two_deployments ..
qed

lemma first_record_shown:
  "for_each (show_deployment py) [JObj [(ascii ''state'', JStr (ascii ''CANCELED''))]]
     [deployments_header None, rule40]
   = (Inr (), [deployments_header None, rule40, ascii ''  '' @ [9898] @ ascii '' no-url'',
               ascii ''     State: CANCELED'', ascii ''     Created: unknown'', []])"
  by (simp add: show_deployment_def dict_get_def state_icon_def state_icons_def default_icon_def
      str_of_def truthy_def and_then_def print_encodable ok_def)


theorem deployment_marker_from_table_witness:
  "\<forall>py.
     (\<exists>r tail. map_option (\<lambda>(r, out, evs). (r, out))
                  (list_deployments py (answering two_deployments) None 5)
        = Some (r, [deployments_header None, rule40, ascii ''  '' @ [9898] @ ascii '' no-url'',
                    ascii ''     State: CANCELED'', ascii ''     Created: unknown'', []]
                   @ (ascii ''  '' @ [128994] @ ascii '' a.app'') # tail))"
proof
  fix py
  let ?second = "[(ascii ''state'', JStr (ascii ''READY'')), (ascii ''url'', JStr (ascii ''a.app''))]"
  let ?items = "[JObj [(ascii ''state'', JStr (ascii ''CANCELED''))], JObj ?second]"
  let ?res = "[(ascii ''deployments'', JArr ?items)]"
  let ?resp = "[(ascii ''ok'', JBool True), (ascii ''result'', JObj ?res)]"
  have h1: "encodable (deployments_header None)"
    by (simp add: deployments_header_def given_def)
  have h2: "map_option fst (call_daemon py (answering two_deployments) (ascii ''vercel.deployments'')
                              (Some (deployments_params None 5))) = Some (Inr (JObj ?resp))"
    by (rule call_two_deployments)
  have h3: "map_of ?resp (ascii ''ok'') = Some (JBool True)" by simp
  have h4: "truthy py (JBool True)" by (simp add: truthy_def)
  have h5: "map_of ?resp (ascii ''result'') = Some (JObj ?res)" by simp
  have h6: "map_of ?res (ascii ''deployments'') = Some (JArr ?items)" by simp
  have h7: "1 < length ?items" by simp
  have h8: "?items ! 1 = JObj ?second" by simp
  have h9: "for_each (show_deployment py) (take 1 ?items) [deployments_header None, rule40]
            = (Inr (), [deployments_header None, rule40, ascii ''  '' @ [9898] @ ascii '' no-url'',
                        ascii ''     State: CANCELED'', ascii ''     Created: unknown'', []])"
    using first_record_shown [of py] by simp
  have h10: "state_of ?second = JStr (ascii ''READY'')" by (simp add: state_of_def)
  have h11: "encodable (str_of py (url_of ?second))" by (simp add: url_of_def str_of_def)
  show "\<exists>r tail. map_option (\<lambda>(r, out, evs). (r, out))
                  (list_deployments py (answering two_deployments) None 5)
        = Some (r, [deployments_header None, rule40, ascii ''  '' @ [9898] @ ascii '' no-url'',
                    ascii ''     State: CANCELED'', ascii ''     Created: unknown'', []]
                   @ (ascii ''  '' @ [128994] @ ascii '' a.app'') # tail)"
    using deployment_marker_from_table [OF h1 h2 h3 h4 h5 h6 h7 h8 h9 h10 h11]
    by (simp add: state_icons_def url_of_def str_of_def)
qed

text \<open>
  C10. The table assigns \<open>QUEUED\<close> the marker that is also the default, so when
  \<open>list_deployments\<close> reaches a record whose state is a string that is not in the
  table, the marker it chooses, and prints on the record's line, is the marker of a
  queued deployment.
\<close>

theorem unknown_state_marker_is_queued:
  assumes "encodable (deployments_header project_name)"
    and "map_option fst (call_daemon py ep (ascii ''vercel.deployments'')
                           (Some (deployments_params project_name limit))) = Some (Inr (JObj resp))"
    and "map_of resp (ascii ''ok'') = Some flag" and "truthy py flag"
    and "map_of resp (ascii ''result'') = Some (JObj res)"
    and "map_of res (ascii ''deployments'') = Some (JArr items)"
    and "i < length items" and "items ! i = JObj kvs"
    and "for_each (show_deployment py) (take i items) [deployments_header project_name, rule40]
         = (Inr (), out_i)"
    and "state_of kvs = JStr s" and "map_of state_icons s = None"
    and "encodable (str_of py (url_of kvs))"
  shows "map_of state_icons (ascii ''QUEUED'') = Some default_icon
         \<and> state_icon (state_of kvs) = Inr (the (map_of state_icons (ascii ''QUEUED'')))
         \<and> (\<exists>r tail. map_option (\<lambda>(r, out, evs). (r, out))
                         (list_deployments py ep project_name limit)
                = Some (r, out_i @ (ascii ''  '' @ the (map_of state_icons (ascii ''QUEUED''))
                                    @ ascii '' '' @ str_of py (url_of kvs)) # tail))"
proof -
  have q: "map_of state_icons (ascii ''QUEUED'') = Some default_icon"
    by (simp add: state_icons_def default_icon_def)
  have a: "state_icon (state_of kvs) = Inr default_icon"
    using assms(10,11) by (simp add: state_icon_def)
  have e: "encodable default_icon" by (simp add: default_icon_def)
  from list_deployments_marker_line [OF assms(1-9) a e assms(12)] a q
  show ?thesis by simp
qed

theorem unknown_state_marker_is_queued_witness:
  "\<forall>py.
     map_of state_icons (ascii ''CANCELED'') = None
     \<and> (\<exists>r tail. map_option (\<lambda>(r, out, evs). (r, out))
                     (list_deployments py (answering two_deployments) None 5)
            = Some (r, [deployments_header None, rule40]
                       @ (ascii ''  '' @ the (map_of state_icons (ascii ''QUEUED''))
                          @ ascii '' no-url'') # tail))"
proof
  fix py
  let ?first = "[(ascii ''state'', JStr (ascii ''CANCELED''))]"
  let ?second = "[(ascii ''state'', JStr (ascii ''READY'')), (ascii ''url'', JStr (ascii ''a.app''))]"
  let ?items = "[JObj ?first, JObj ?second]"
  let ?res = "[(ascii ''deployments'', JArr ?items)]"
  let ?resp = "[(ascii ''ok'', JBool True), (ascii ''result'', JObj ?res)]"
  have h1: "encodable (deployments_header None)"
    by (simp add: deployments_header_def given_def)
  have h2: "map_option fst (call_daemon py (answering two_deployments) (ascii ''vercel.deployments'')
                              (Some (deployments_params None 5))) = Some (Inr (JObj ?resp))"
    by (rule call_two_deployments)
  have h3: "map_of ?resp (ascii ''ok'') = Some (JBool True)" by simp
  have h4: "truthy py (JBool True)" by (simp add: truthy_def)
  have h5: "map_of ?resp (ascii ''result'') = Some (JObj ?res)" by simp
  have h6: "map_of ?res (ascii ''deployments'') = Some (JArr ?items)" by simp
  have h7: "0 < length ?items" by simp
  have h8: "?items ! 0 = JObj ?first" by simp
  have h9: "for_each (show_deployment py) (take 0 ?items) [deployments_header None, rule40]
            = (Inr (), [deployments_header None, rule40])"
    by simp
  have h10: "state_of ?first = JStr (ascii ''CANCELED'')" by (simp add: state_of_def)
  have h11: "map_of state_icons (ascii ''CANCELED'') = None" by (simp add: state_icons_def)
  have h12: "encodable (str_of py (url_of ?first))" by (simp add: url_of_def str_of_def)
  show "map_of state_icons (ascii ''CANCELED'') = None
     \<and> (\<exists>r tail. map_option (\<lambda>(r, out, evs). (r, out))
                     (list_deployments py (answering two_deployments) None 5)
            = Some (r, [deployments_header None, rule40]
                       @ (ascii ''  '' @ the (map_of state_icons (ascii ''QUEUED''))
                          @ ascii '' no-url'') # tail))"
    using h11 unknown_state_marker_is_queued [OF h1 h2 h3 h4 h5 h6 h7 h8 h9 h10 h11 h12]
    by (auto simp: url_of_def str_of_def)
qed

subsection \<open>The whole call\<close>

text \<open>
  C3. When the response arrives in several pieces and the newline byte is in the last
  of them only, the read loop returns all the pieces joined, and \<open>call_daemon\<close> parses
  exactly that: no shorter prefix is parsed.
\<close>

theorem read_loop_assembles_chunks:
  assumes "connects ep" and "sends ep"
    and "payload py (request (urandom ep) method params) = Inr data"
    and "recvs ep = map Data chunks @- rest"
    and "[] \<notin> set chunks" and "chunks \<noteq> []"
    and "CHR 0x0A \<notin> set (concat (butlast chunks))" and "CHR 0x0A \<in> set (last chunks)"
  shows "recv_loop (recvs ep) [] = Some (Inr (concat chunks))
         \<and> call_daemon py ep method params
             = Some (parse_response (concat chunks), [Socket, Connect, Sendall data, Close])"
proof -
  have r: "recv_loop (recvs ep) [] = Some (Inr (concat chunks))"
    unfolding assms(4) using recv_loop_until_newline [OF assms(5,6) _ assms(7,8), of "[]" rest]
    by simp
  from r call_daemon_received [OF assms(1,2,3) r] show ?thesis by simp
qed

lemma parse_ok_true:
  "parse_response (concat [''{\"ok\": '', ''tr'', ''ue}'' @ [CHR 0x0A]])
   = Inr (JObj [(ascii ''ok'', JBool True)])"
  by code_simp

lemma health_payload:
  "payload py (request r (ascii ''health'') None)
   = Inr (map char_of (dumps py (request r (ascii ''health'') None) @ [NEWLINE]))"
  by (rule payload_wf [OF wf_request]) (simp_all add: code_point_def)

theorem read_loop_assembles_chunks_witness:
  "\<forall>py. call_daemon py
          \<lparr>urandom = 0, connects = True, sends = True,
           recvs = map Data [''{\"ok\": '', ''tr'', ''ue}'' @ [CHR 0x0A]] @- closed\<rparr>
          (ascii ''health'') None
        = Some (Inr (JObj [(ascii ''ok'', JBool True)]),
                [Socket, Connect,
                 Sendall (map char_of (dumps py (request 0 (ascii ''health'') None) @ [NEWLINE])),
                 Close])"
proof
  fix py
  let ?chunks = "[''{\"ok\": '', ''tr'', ''ue}'' @ [CHR 0x0A]]"
  let ?ep = "\<lparr>urandom = 0, connects = True, sends = True, recvs = map Data ?chunks @- closed\<rparr>"
  have h1: "connects ?ep" and h2: "sends ?ep" by simp_all
  have h3: "payload py (request (urandom ?ep) (ascii ''health'') None)
            = Inr (map char_of (dumps py (request 0 (ascii ''health'') None) @ [NEWLINE]))"
    using health_payload [of py 0] by simp
  have h4: "recvs ?ep = map Data ?chunks @- closed" by simp
  have h5: "[] \<notin> set ?chunks" by simp
  have h6: "?chunks \<noteq> []" by simp
  have h7: "CHR 0x0A \<notin> set (concat (butlast ?chunks))" by simp
  have h8: "CHR 0x0A \<in> set (last ?chunks)" by simp
  show "call_daemon py ?ep (ascii ''health'') None
        = Some (Inr (JObj [(ascii ''ok'', JBool True)]),
                [Socket, Connect,
                 Sendall (map char_of (dumps py (request 0 (ascii ''health'') None) @ [NEWLINE])),
                 Close])"
    using read_loop_assembles_chunks [OF h1 h2 h3 h4 h5 h6 h7 h8]
    unfolding parse_ok_true by simp
qed

text \<open>
  C8. Whenever \<open>call_daemon\<close> completes, by returning or by raising, it has created
  one socket, made one connection attempt on it, and closed it as its last action.
\<close>

theorem socket_closed_on_every_path:
  assumes "call_daemon py ep method params = Some (res, evs)"
  shows "hd evs = Socket \<and> last evs = Close
         \<and> count_list evs Socket = 1 \<and> count_list evs Connect = 1 \<and> count_list evs Close = 1
         \<and> (evs = [Socket, Connect, Close] \<or> (\<exists>d. evs = [Socket, Connect, Sendall d, Close]))"
  using call_daemon_events [OF assms] by auto


lemma call_daemon_recv_fault:
  assumes "connects ep" and "sends ep"
    and "payload py (request (urandom ep) method params) = Inr data"
    and "recv_loop (recvs ep) [] = Some (Inl e)"
  shows "call_daemon py ep method params = Some (Inl e, [Socket, Connect, Sendall data, Close])"
  using assms by (simp add: call_daemon_def with_body_def)

theorem socket_closed_on_every_path_witness:
  "\<forall>py.
     (call_daemon py \<lparr>urandom = 0, connects = False, sends = True, recvs = closed\<rparr>
        (ascii ''health'') None
      = Some (Inl OSError, [Socket, Connect, Close])
      \<and> last [Socket, Connect, Close] = Close \<and> count_list [Socket, Connect, Close] Close = 1)
   \<and> (call_daemon py \<lparr>urandom = 0, connects = True, sends = True, recvs = Fault ## closed\<rparr>
          (ascii ''health'') None
        = Some (Inl OSError,
                [Socket, Connect,
                 Sendall (map char_of (dumps py (request 0 (ascii ''health'') None) @ [NEWLINE])),
                 Close]))
   \<and> (call_daemon py \<lparr>urandom = 0, connects = True, sends = True, recvs = closed\<rparr>
          (ascii ''health'') None
        = Some (Inl JSONDecodeError,
                [Socket, Connect,
                 Sendall (map char_of (dumps py (request 0 (ascii ''health'') None) @ [NEWLINE])),
                 Close]))"
proof
  fix py
  let ?d = "map char_of (dumps py (request 0 (ascii ''health'') None) @ [NEWLINE])"
  let ?refused = "\<lparr>urandom = 0, connects = False, sends = True, recvs = closed\<rparr>"
  let ?reset = "\<lparr>urandom = 0, connects = True, sends = True, recvs = Fault ## closed\<rparr>"
  let ?silent = "\<lparr>urandom = 0, connects = True, sends = True, recvs = closed\<rparr>"
  have e: "parse_response [] = Inl JSONDecodeError" by code_simp
  have a: "call_daemon py ?refused (ascii ''health'') None = Some (Inl OSError, [Socket, Connect, Close])"
    by (simp add: call_daemon_def with_body_def)
  have p: "payload py (request (urandom ?reset) (ascii ''health'') None) = Inr ?d"
    using health_payload [of py 0] by simp
  have "recv_loop (recvs ?reset) [] = Some (Inl OSError)" by (simp add: recv_loop_Fault)
  from call_daemon_recv_fault [OF _ _ p this]
  have b: "call_daemon py ?reset (ascii ''health'') None
           = Some (Inl OSError, [Socket, Connect, Sendall ?d, Close])"
    by simp
  have p': "payload py (request (urandom ?silent) (ascii ''health'') None) = Inr ?d"
    using health_payload [of py 0] by simp
  have "recv_loop (recvs ?silent) [] = Some (Inr [])" by (simp add: recv_loop_closed)
  from call_daemon_received [OF _ _ p' this]
  have c: "call_daemon py ?silent (ascii ''health'') None
           = Some (Inl JSONDecodeError, [Socket, Connect, Sendall ?d, Close])"
    unfolding e by simp
  show "(call_daemon py ?refused (ascii ''health'') None = Some (Inl OSError, [Socket, Connect, Close])
      \<and> last [Socket, Connect, Close] = Close \<and> count_list [Socket, Connect, Close] Close = 1)
   \<and> (call_daemon py ?reset (ascii ''health'') None
        = Some (Inl OSError, [Socket, Connect, Sendall ?d, Close]))
   \<and> (call_daemon py ?silent (ascii ''health'') None
        = Some (Inl JSONDecodeError, [Socket, Connect, Sendall ?d, Close]))"
    using a b c socket_closed_on_every_path [OF a] socket_closed_on_every_path [OF b]
      socket_closed_on_every_path [OF c]
    by simp
qed






end
